theory Spec2Isabelle
  imports Main "HOL-Library.Word"
begin

section \<open>Data model\<close>

text \<open>
  Python integers are unbounded: token IDs, counts and vocabulary sizes are \<open>int\<close>.
  A \<open>bytes\<close> object is a list of 8-bit words, a \<open>str\<close> is the list of its code points.
  A \<open>dict\<close> keeps its keys in insertion order, and \<open>max\<close>/\<open>min\<close> over a dict depend on
  that order, so a dict is an association list with distinct keys in insertion order.
\<close>

type_synonym byte = "8 word"
type_synonym bytes = "byte list"
type_synonym str = "nat list"
type_synonym ('k, 'v) dict = "('k \<times> 'v) list"

text \<open>\<open>d[k] = v\<close>: an existing key keeps its position, a new key goes to the end.\<close>

fun dict_set :: "('k, 'v) dict \<Rightarrow> 'k \<Rightarrow> 'v \<Rightarrow> ('k, 'v) dict" where
  "dict_set [] k v = [(k, v)]"
| "dict_set ((k', v') # d) k v =
     (if k' = k then (k', v) # d else (k', v') # dict_set d k v)"

text \<open>\<open>d.get(k)\<close> is \<open>map_of d k\<close>; \<open>d.get(k, default)\<close>:\<close>

definition dict_get_default :: "('k, 'v) dict \<Rightarrow> 'k \<Rightarrow> 'v \<Rightarrow> 'v" where
  "dict_get_default d k dflt = (case map_of d k of Some v \<Rightarrow> v | None \<Rightarrow> dflt)"

section \<open>Pair statistics\<close>

text \<open>
  \<^verbatim>\<open>counts = {}
  for pair in zip(ids, ids[1:]):
      counts[pair] = counts.get(pair, 0) + 1
  return counts\<close>
\<close>

fun get_stats_loop :: "(int \<times> int) list \<Rightarrow> (int \<times> int, int) dict \<Rightarrow> (int \<times> int, int) dict" where
  "get_stats_loop [] counts = counts"
| "get_stats_loop (pair # rest) counts =
     get_stats_loop rest (dict_set counts pair (dict_get_default counts pair 0 + 1))"

definition get_stats :: "int list \<Rightarrow> (int \<times> int, int) dict" where
  "get_stats ids = get_stats_loop (zip ids (drop 1 ids)) []"

section \<open>Merge\<close>

text \<open>
  \<^verbatim>\<open>newids = []; i = 0
  while i < len(ids):
      if i < len(ids) - 1 and ids[i] == pair[0] and ids[i + 1] == pair[1]:
          newids.append(idx); i += 2
      else:
          newids.append(ids[i]); i += 1
  return newids\<close>
  The loop only reads \<open>ids\<close> and builds the fresh list \<open>newids\<close>.
\<close>

function merge_loop :: "int list \<Rightarrow> int \<times> int \<Rightarrow> int \<Rightarrow> nat \<Rightarrow> int list \<Rightarrow> int list" where
  "merge_loop ids pair idx i newids =
     (if i < length ids then
        (if i < length ids - 1 \<and> ids ! i = fst pair \<and> ids ! (i + 1) = snd pair
         then merge_loop ids pair idx (i + 2) (newids @ [idx])
         else merge_loop ids pair idx (i + 1) (newids @ [ids ! i]))
      else newids)"
  by pat_completeness auto
termination
  by (relation "measure (\<lambda>(ids, pair, idx, i, newids). length ids - i)") auto

declare merge_loop.simps [simp del]

definition merge :: "int list \<Rightarrow> int \<times> int \<Rightarrow> int \<Rightarrow> int list" where
  "merge ids pair idx = merge_loop ids pair idx 0 []"

text \<open>
  The merge as the specification words it: scan left to right; where the two tokens at
  the front are the pair, they are consumed together and replaced by the new ID, and the
  scan resumes behind them; otherwise one token is copied.
\<close>

fun merge_spec :: "int list \<Rightarrow> int \<times> int \<Rightarrow> int \<Rightarrow> int list" where
  "merge_spec (x # y # rest) pair idx =
     (if x = fst pair \<and> y = snd pair then idx # merge_spec rest pair idx
      else x # merge_spec (y # rest) pair idx)"
| "merge_spec [x] pair idx = [x]"
| "merge_spec [] pair idx = []"

lemma merge_loop_spec:
  "i \<le> length ids \<Longrightarrow>
   merge_loop ids pair idx i newids = newids @ merge_spec (drop i ids) pair idx"
proof (induction ids pair idx i newids rule: merge_loop.induct)
  case (1 ids pair idx i newids)
  show ?case
  proof (cases "i < length ids")
    case False
    with "1.prems" show ?thesis by (simp add: merge_loop.simps)
  next
    case True
    then obtain x rest where d: "drop i ids = x # rest" and x: "x = ids ! i"
      by (metis Cons_nth_drop_Suc)
    have rest: "rest = drop (Suc i) ids"
      using d by (metis drop_Suc list.sel(3) tl_drop)
    show ?thesis
    proof (cases "i < length ids - 1 \<and> ids ! i = fst pair \<and> ids ! (i + 1) = snd pair")
      case hit: True
      then have "Suc i < length ids" by linarith
      then obtain y rest' where r: "rest = y # rest'" and y: "y = ids ! Suc i"
        using rest by (metis Cons_nth_drop_Suc)
      have rest': "rest' = drop (i + 2) ids"
        using r rest by (metis add_2_eq_Suc' drop_Suc list.sel(3) tl_drop)
      have "merge_loop ids pair idx i newids = merge_loop ids pair idx (i + 2) (newids @ [idx])"
        using True hit by (subst merge_loop.simps) simp
      also have "\<dots> = (newids @ [idx]) @ merge_spec (drop (i + 2) ids) pair idx"
        using "1.IH"(1) [OF True hit] \<open>Suc i < length ids\<close> by simp
      finally show ?thesis
        using d r rest' x y hit by simp
    next
      case miss: False
      have "merge_loop ids pair idx i newids = merge_loop ids pair idx (i + 1) (newids @ [ids ! i])"
        using True miss by (subst merge_loop.simps) auto
      also have "\<dots> = (newids @ [ids ! i]) @ merge_spec (drop (i + 1) ids) pair idx"
        using "1.IH"(2) [OF True miss] True by simp
      finally have *: "merge_loop ids pair idx i newids = newids @ x # merge_spec rest pair idx"
        using rest x by simp
      show ?thesis
      proof (cases rest)
        case Nil
        then show ?thesis using * d by simp
      next
        case (Cons y rest')
        then have "Suc i < length ids" and "y = ids ! Suc i"
          using rest by (metis drop_eq_Nil2 list.distinct(1) not_le, metis Cons_nth_drop_Suc drop_eq_Nil2 list.distinct(1) list.inject not_le)
        with miss x have "\<not> (x = fst pair \<and> y = snd pair)" by auto
        then show ?thesis using * d Cons by auto
      qed
    qed
  qed
qed

lemma merge_eq_spec: "merge ids pair idx = merge_spec ids pair idx"
  by (simp add: merge_def merge_loop_spec)


section \<open>Selection by key\<close>

text \<open>
  Python's \<open>max(xs, key=f)\<close> and \<open>min(xs, key=f)\<close> walk \<open>xs\<close> in order and replace the
  current best only by an element that is strictly better, so the first of several
  equally good elements wins. \<open>better\<close> is \<open>>\<close> for \<open>max\<close> and \<open><\<close> for \<open>min\<close>.
\<close>

fun select_first :: "('k \<Rightarrow> 'k \<Rightarrow> bool) \<Rightarrow> ('a \<Rightarrow> 'k) \<Rightarrow> 'a \<Rightarrow> 'a list \<Rightarrow> 'a" where
  "select_first better key best [] = best"
| "select_first better key best (x # xs) =
     select_first better key (if better (key x) (key best) then x else best) xs"

text \<open>
  \<open>stats.get\<close> as a key: the count of a pair (\<open>None\<close> only for a pair that is not a key
  of \<open>stats\<close>, which \<open>max(stats, key=stats.get)\<close> never asks for).
\<close>

fun count_gt :: "int option \<Rightarrow> int option \<Rightarrow> bool" where
  "count_gt (Some a) (Some b) = (a > b)"
| "count_gt _ _ = False"

text \<open>
  \<open>merges.get(p, float("inf"))\<close> as a key: \<open>None\<close> stands for infinity, which is not
  below anything and is above every integer.
\<close>

fun prio_lt :: "int option \<Rightarrow> int option \<Rightarrow> bool" where
  "prio_lt (Some a) (Some b) = (a < b)"
| "prio_lt (Some a) None = True"
| "prio_lt None _ = False"

section \<open>UTF-8 encoding of a string\<close>

text \<open>
  \<open>text.encode("utf-8")\<close> is strict: a surrogate code point (U+D800 to U+DFFF) raises
  UnicodeEncodeError. A \<open>str\<close> holds no code point above U+10FFFF; the model rejects such
  a number as well.
\<close>

definition utf8_char_values :: "nat \<Rightarrow> nat list option" where
  "utf8_char_values c =
     (if c < 0x80 then Some [c]
      else if c < 0x800 then Some [0xC0 + c div 64, 0x80 + c mod 64]
      else if 0xD800 \<le> c \<and> c < 0xE000 then None
      else if c < 0x10000 then
        Some [0xE0 + c div 4096, 0x80 + c div 64 mod 64, 0x80 + c mod 64]
      else if c < 0x110000 then
        Some [0xF0 + c div 262144, 0x80 + c div 4096 mod 64, 0x80 + c div 64 mod 64,
              0x80 + c mod 64]
      else None)"

definition utf8_encode_char :: "nat \<Rightarrow> bytes option" where
  "utf8_encode_char c = map_option (map of_nat) (utf8_char_values c)"

fun utf8_encode :: "str \<Rightarrow> bytes option" where
  "utf8_encode [] = Some []"
| "utf8_encode (c # cs) =
     (case utf8_encode_char c of
        None \<Rightarrow> None
      | Some bs \<Rightarrow> (case utf8_encode cs of None \<Rightarrow> None | Some rest \<Rightarrow> Some (bs @ rest)))"

section \<open>The tokenizer\<close>

datatype error =
  ValueError | RuntimeError | KeyError | UnicodeEncodeError | ZeroDivisionError
  | IndexError | OSError | JSONDecodeError

text \<open>
  \<open>self.vocab\<close> maps a token ID to its bytes. \<open>self.merges\<close> maps a tuple of IDs to the
  merged ID; training stores pairs, loading stores tuples of any length, so a key is a
  list and the pair \<open>(a, b)\<close> is the key \<open>[a, b]\<close>.
\<close>

record tokenizer =
  vocab :: "(int, bytes) dict"
  merges :: "(int list, int) dict"

definition tuple_of :: "int \<times> int \<Rightarrow> int list" where
  "tuple_of p = [fst p, snd p]"

subsection \<open>train\<close>

text \<open>
  \<^verbatim>\<open>for i in range(num_merges):
      stats = self._get_stats(ids)
      if not stats:
          break
      pair = max(stats, key=stats.get)
      idx = 256 + i
      ids = self._merge(ids, pair, idx)
      self.merges[pair] = idx
      self.vocab[idx] = self.vocab[pair[0]] + self.vocab[pair[1]]\<close>
  \<open>train_pick\<close> is the choice of the pair (\<open>None\<close> when \<open>stats\<close> is empty, where the loop
  breaks), \<open>train_step\<close> the rest of the body, \<open>train_loop\<close> one pass per element of the
  index list. A result carries the exception raised, if any, the working sequence and
  the tokenizer as the pass left it: \<open>self.merges[pair] = idx\<close> runs before the
  vocabulary lookups of the last line, which raise KeyError on a missing ID.
\<close>

definition train_pick :: "(int \<times> int, int) dict \<Rightarrow> (int \<times> int) option" where
  "train_pick stats =
     (case map fst stats of
        [] \<Rightarrow> None
      | p # ps \<Rightarrow> Some (select_first count_gt (map_of stats) p ps))"

definition train_step :: "int \<Rightarrow> int \<times> int \<Rightarrow> int list \<Rightarrow> tokenizer \<Rightarrow> error option \<times> int list \<times> tokenizer" where
  "train_step i pair ids st =
     (let idx = 256 + i;
          ids' = merge ids pair idx;
          st1 = st\<lparr>merges := dict_set (merges st) (tuple_of pair) idx\<rparr>
      in case map_of (vocab st1) (fst pair) of
           None \<Rightarrow> (Some KeyError, ids', st1)
         | Some l \<Rightarrow>
             (case map_of (vocab st1) (snd pair) of
                None \<Rightarrow> (Some KeyError, ids', st1)
              | Some r \<Rightarrow> (None, ids', st1\<lparr>vocab := dict_set (vocab st1) idx (l @ r)\<rparr>)))"

fun train_loop :: "int list \<Rightarrow> int list \<Rightarrow> tokenizer \<Rightarrow> error option \<times> int list \<times> tokenizer" where
  "train_loop [] ids st = (None, ids, st)"
| "train_loop (i # rest) ids st =
     (case train_pick (get_stats ids) of
        None \<Rightarrow> (None, ids, st)
      | Some pair \<Rightarrow>
          (case train_step i pair ids st of
             (Some e, ids', st') \<Rightarrow> (Some e, ids', st')
           | (None, ids', st') \<Rightarrow> train_loop rest ids' st'))"

text \<open>
  \<open>train\<close> checks \<open>vocab_size\<close>, encodes the text, resets both tables, runs the merges
  and then prints a report that divides \<open>len(tokens)\<close> by \<open>len(ids)\<close>. The result is the
  exception raised (\<open>None\<close> for a normal return) and the tokenizer afterwards.
\<close>

definition initial_vocab :: "(int, bytes) dict" where
  "initial_vocab = map (\<lambda>idx. (idx, [word_of_int idx])) [0..255]"

definition train :: "tokenizer \<Rightarrow> str \<Rightarrow> int \<Rightarrow> error option \<times> tokenizer" where
  "train st text vocab_size =
     (if vocab_size < 256 then (Some ValueError, st)
      else case utf8_encode text of
        None \<Rightarrow> (Some UnicodeEncodeError, st)
      | Some bs \<Rightarrow>
          let tokens = map uint bs;
              num_merges = vocab_size - 256;
              st0 = st\<lparr>vocab := initial_vocab, merges := []\<rparr>
          in (case train_loop [0..num_merges - 1] tokens st0 of
                (Some e, ids, st') \<Rightarrow> (Some e, st')
              | (None, ids, st') \<Rightarrow>
                  if length ids = 0 then (Some ZeroDivisionError, st') else (None, st')))"

subsection \<open>Facts needed to define the encoder's loop\<close>

lemma dict_set_keys: "fst ` set (dict_set d k v) = insert k (fst ` set d)"
  by (induction d) (simp, force)

lemma get_stats_loop_keys:
  "fst ` set (get_stats_loop ps counts) = set ps \<union> fst ` set counts"
  by (induction ps arbitrary: counts) (simp_all add: dict_set_keys)

lemma get_stats_keys: "fst ` set (get_stats ids) = set (zip ids (drop 1 ids))"
  by (simp add: get_stats_def get_stats_loop_keys)

lemma select_first_mem: "select_first better key best xs \<in> set (best # xs)"
  by (induction xs arbitrary: best) (auto split: if_splits)

lemma zip_drop1_Cons: "zip (x # y # rest) (drop 1 (x # y # rest)) = (x, y) # zip (y # rest) (drop 1 (y # rest))"
  by simp

lemma merge_spec_length_le: "length (merge_spec ids pair idx) \<le> length ids"
  by (induction ids pair idx rule: merge_spec.induct) auto

lemma merge_spec_shorter:
  "pair \<in> set (zip ids (drop 1 ids)) \<Longrightarrow> length (merge_spec ids pair idx) < length ids"
proof (induction ids pair idx rule: merge_spec.induct)
  case (1 x y rest pair idx)
  show ?case
  proof (cases "x = fst pair \<and> y = snd pair")
    case True
    then show ?thesis
      using merge_spec_length_le [of rest pair idx] by simp
  next
    case False
    with "1.prems" have "pair \<in> set (zip (y # rest) (drop 1 (y # rest)))"
      by (auto simp: prod_eq_iff)
    with "1.IH"(2) False show ?thesis by auto
  qed
qed simp_all

subsection \<open>encode\<close>

text \<open>
  \<^verbatim>\<open>while len(tokens) >= 2:
      stats = self._get_stats(tokens)
      pair = min(stats, key=lambda p: self.merges.get(p, float("inf")))
      if pair not in self.merges:
          break
      idx = self.merges[pair]
      tokens = self._merge(tokens, pair, idx)
  return tokens\<close>
  \<open>min\<close> of an empty dict raises ValueError.
\<close>

definition encode_pick :: "(int list, int) dict \<Rightarrow> int list \<Rightarrow> (int \<times> int) option" where
  "encode_pick m tokens =
     (case map fst (get_stats tokens) of
        [] \<Rightarrow> None
      | p # ps \<Rightarrow> Some (select_first prio_lt (\<lambda>p. map_of m (tuple_of p)) p ps))"

lemma encode_pick_mem:
  "encode_pick m tokens = Some pair \<Longrightarrow> pair \<in> set (zip tokens (drop 1 tokens))"
proof -
  assume a: "encode_pick m tokens = Some pair"
  then obtain p ps where ks: "map fst (get_stats tokens) = p # ps"
    and pr: "pair = select_first prio_lt (\<lambda>p. map_of m (tuple_of p)) p ps"
    by (auto simp: encode_pick_def split: list.splits)
  have "pair \<in> set (p # ps)" unfolding pr by (rule select_first_mem)
  then have "pair \<in> fst ` set (get_stats tokens)" using ks by (metis set_map)
  then show ?thesis by (simp only: get_stats_keys)
qed

function encode_loop :: "(int list, int) dict \<Rightarrow> int list \<Rightarrow> error + int list" where
  "encode_loop m tokens =
     (if length tokens \<ge> 2 then
        (case encode_pick m tokens of
           None \<Rightarrow> Inl ValueError
         | Some pair \<Rightarrow>
             (case map_of m (tuple_of pair) of
                None \<Rightarrow> Inr tokens
              | Some idx \<Rightarrow> encode_loop m (merge tokens pair idx)))
      else Inr tokens)"
  by pat_completeness auto
termination
proof (relation "measure (\<lambda>(m, tokens). length tokens)")
  show "wf (measure (\<lambda>(m, tokens). length tokens))" by simp
next
  fix m :: "(int list, int) dict" and tokens :: "int list" and pair idx
  assume "encode_pick m tokens = Some pair"
  then have "pair \<in> set (zip tokens (drop 1 tokens))" by (rule encode_pick_mem)
  then show "((m, merge tokens pair idx), (m, tokens)) \<in> measure (\<lambda>(m, tokens). length tokens)"
    by (simp add: merge_eq_spec merge_spec_shorter)
qed

declare encode_loop.simps [simp del]

definition encode :: "tokenizer \<Rightarrow> str \<Rightarrow> error + int list" where
  "encode st text =
     (if merges st = [] then Inl RuntimeError
      else case utf8_encode text of
        None \<Rightarrow> Inl UnicodeEncodeError
      | Some bs \<Rightarrow> encode_loop (merges st) (map uint bs))"

subsection \<open>decode\<close>

text \<open>
  \<open>tokens.decode("utf-8", errors="replace")\<close> is the decoder of the Python runtime.
  It reads one character at the head of the buffer at a time. A lead byte with all its
  continuation bytes in range gives the code point. Otherwise the decoder emits U+FFFD
  for the bytes read so far that could still begin a character (at least the first
  byte), and resumes behind them: an invalid start byte covers one byte, an invalid
  continuation byte covers the bytes before it, and a character cut off by the end of the
  buffer covers everything that is left. The second byte is checked against the
  tightened ranges after E0, ED, F0 and F4, which exclude overlong forms, surrogates and
  code points above U+10FFFF. \<open>utf8_decode_head ch s\<close> is the code point produced at
  the head \<open>ch # s\<close> and the number of bytes of \<open>s\<close> consumed with \<open>ch\<close>.
\<close>

definition is_cont :: "nat \<Rightarrow> bool" where
  "is_cont b \<longleftrightarrow> 0x80 \<le> b \<and> b < 0xC0"

definition bad_second :: "nat \<Rightarrow> nat \<Rightarrow> bool" where
  "bad_second ch ch2 \<longleftrightarrow>
     \<not> is_cont ch2
     \<or> (ch = 0xE0 \<and> ch2 < 0xA0) \<or> (ch = 0xED \<and> ch2 \<ge> 0xA0)
     \<or> (ch = 0xF0 \<and> ch2 < 0x90) \<or> (ch = 0xF4 \<and> ch2 \<ge> 0x90)"

fun utf8_decode_head :: "nat \<Rightarrow> nat list \<Rightarrow> nat \<times> nat" where
  "utf8_decode_head ch s =
     (if ch < 0x80 then (ch, 0)
      else if ch < 0xC2 then (0xFFFD, 0)
      else if ch < 0xE0 then
        (case s of
           [] \<Rightarrow> (0xFFFD, 0)
         | ch2 # _ \<Rightarrow>
             if \<not> is_cont ch2 then (0xFFFD, 0)
             else ((ch - 0xC0) * 64 + (ch2 - 0x80), 1))
      else if ch < 0xF0 then
        (case s of
           [] \<Rightarrow> (0xFFFD, 0)
         | [ch2] \<Rightarrow> if bad_second ch ch2 then (0xFFFD, 0) else (0xFFFD, 1)
         | ch2 # ch3 # _ \<Rightarrow>
             if bad_second ch ch2 then (0xFFFD, 0)
             else if \<not> is_cont ch3 then (0xFFFD, 1)
             else ((ch - 0xE0) * 4096 + (ch2 - 0x80) * 64 + (ch3 - 0x80), 2))
      else if ch < 0xF5 then
        (case s of
           [] \<Rightarrow> (0xFFFD, 0)
         | [ch2] \<Rightarrow> if bad_second ch ch2 then (0xFFFD, 0) else (0xFFFD, 1)
         | [ch2, ch3] \<Rightarrow>
             if bad_second ch ch2 then (0xFFFD, 0)
             else if \<not> is_cont ch3 then (0xFFFD, 1)
             else (0xFFFD, 2)
         | ch2 # ch3 # ch4 # _ \<Rightarrow>
             if bad_second ch ch2 then (0xFFFD, 0)
             else if \<not> is_cont ch3 then (0xFFFD, 1)
             else if \<not> is_cont ch4 then (0xFFFD, 2)
             else ((ch - 0xF0) * 262144 + (ch2 - 0x80) * 4096 + (ch3 - 0x80) * 64
                   + (ch4 - 0x80), 3))
      else (0xFFFD, 0))"

declare utf8_decode_head.simps [simp del]

function utf8_decode_loop :: "nat list \<Rightarrow> str" where
  "utf8_decode_loop [] = []"
| "utf8_decode_loop (ch # s) =
     fst (utf8_decode_head ch s) # utf8_decode_loop (drop (snd (utf8_decode_head ch s)) s)"
  by pat_completeness auto
termination
  by (relation "measure length") auto

definition utf8_decode_replace :: "bytes \<Rightarrow> str" where
  "utf8_decode_replace bs = utf8_decode_loop (map unat bs)"

text \<open>
  \<^verbatim>\<open>if not self.vocab:
      raise RuntimeError(...)
  tokens = b"".join(self.vocab[idx] for idx in ids)
  text = tokens.decode("utf-8", errors="replace")
  return text\<close>
  A missing ID raises KeyError at the lookup.
\<close>

fun join_vocab :: "(int, bytes) dict \<Rightarrow> int list \<Rightarrow> error + bytes" where
  "join_vocab v [] = Inr []"
| "join_vocab v (idx # ids) =
     (case map_of v idx of
        None \<Rightarrow> Inl KeyError
      | Some bs \<Rightarrow> (case join_vocab v ids of Inl e \<Rightarrow> Inl e | Inr rest \<Rightarrow> Inr (bs @ rest)))"

definition decode :: "tokenizer \<Rightarrow> int list \<Rightarrow> error + str" where
  "decode st ids =
     (if vocab st = [] then Inl RuntimeError
      else case join_vocab (vocab st) ids of
        Inl e \<Rightarrow> Inl e
      | Inr tokens \<Rightarrow> Inr (utf8_decode_replace tokens))"

subsection \<open>save and load\<close>

text \<open>
  Strings of the persisted documents are \<open>string\<close>s. \<open>str(k)\<close> of an integer is its
  decimal numeral with a leading minus sign for a negative number.
\<close>

definition digit_char :: "nat \<Rightarrow> char" where
  "digit_char n = char_of (48 + n)"

function str_of_nat :: "nat \<Rightarrow> string" where
  "str_of_nat n = (if n < 10 then [digit_char n] else str_of_nat (n div 10) @ [digit_char (n mod 10)])"
  by pat_completeness auto
termination
  by (relation "measure id") auto

declare str_of_nat.simps [simp del]

definition str_of_int :: "int \<Rightarrow> string" where
  "str_of_int k = (if k < 0 then CHR ''-'' # str_of_nat (nat (- k)) else str_of_nat (nat k))"

text \<open>
  \<open>int(s)\<close> strips surrounding whitespace and reads an optional sign and then decimal
  digits, where single underscores may stand between digits; anything else raises
  ValueError (\<open>None\<close>).
\<close>

definition is_space :: "char \<Rightarrow> bool" where
  "is_space c \<longleftrightarrow> (let n = of_char c :: nat in n = 0x20 \<or> (0x09 \<le> n \<and> n \<le> 0x0D))"

definition strip :: "string \<Rightarrow> string" where
  "strip s = rev (dropWhile is_space (rev (dropWhile is_space s)))"

definition digit_val :: "char \<Rightarrow> nat option" where
  "digit_val c = (let n = of_char c :: nat in if 48 \<le> n \<and> n \<le> 57 then Some (n - 48) else None)"

fun parse_digits :: "string \<Rightarrow> nat \<Rightarrow> nat option" where
  "parse_digits [] acc = Some acc"
| "parse_digits (c # cs) acc =
     (case digit_val c of
        Some d \<Rightarrow> parse_digits cs (10 * acc + d)
      | None \<Rightarrow>
          if c = CHR ''_'' then
            (case cs of
               [] \<Rightarrow> None
             | c' # cs' \<Rightarrow>
                 (case digit_val c' of
                    Some d \<Rightarrow> parse_digits cs' (10 * acc + d)
                  | None \<Rightarrow> None))
          else None)"

definition nat_of_digits :: "string \<Rightarrow> nat option" where
  "nat_of_digits s =
     (case s of
        [] \<Rightarrow> None
      | c # cs \<Rightarrow> (case digit_val c of None \<Rightarrow> None | Some d \<Rightarrow> parse_digits cs d))"

definition int_of_str :: "string \<Rightarrow> int option" where
  "int_of_str s =
     (case strip s of
        [] \<Rightarrow> None
      | c # r \<Rightarrow>
          if c = CHR ''-'' then map_option (\<lambda>n. - int n) (nat_of_digits r)
          else if c = CHR ''+'' then map_option int (nat_of_digits r)
          else map_option int (nat_of_digits (c # r)))"

text \<open>
  \<open>v.hex()\<close> writes two lowercase hexadecimal digits per byte. \<open>bytes.fromhex(s)\<close> reads
  pairs of hexadecimal digits of either case and skips whitespace between the pairs; an
  odd digit or any other character raises ValueError (\<open>None\<close>).
\<close>

definition hex_char :: "nat \<Rightarrow> char" where
  "hex_char n = (if n < 10 then char_of (48 + n) else char_of (87 + n))"

definition hex :: "bytes \<Rightarrow> string" where
  "hex bs = concat (map (\<lambda>b. [hex_char (unat b div 16), hex_char (unat b mod 16)]) bs)"

definition hex_val :: "char \<Rightarrow> nat option" where
  "hex_val c =
     (let n = of_char c :: nat in
      if 48 \<le> n \<and> n \<le> 57 then Some (n - 48)
      else if 97 \<le> n \<and> n \<le> 102 then Some (n - 87)
      else if 65 \<le> n \<and> n \<le> 70 then Some (n - 55)
      else None)"

fun fromhex :: "string \<Rightarrow> bytes option" where
  "fromhex [] = Some []"
| "fromhex [c] = (if is_space c then Some [] else None)"
| "fromhex (c # d # rest) =
     (if is_space c then fromhex (d # rest)
      else case (hex_val c, hex_val d) of
        (Some h, Some l) \<Rightarrow> map_option ((#) (of_nat (16 * h + l))) (fromhex rest)
      | _ \<Rightarrow> None)"

text \<open>\<open>k.split(',')\<close>: the pieces between the commas, at least one piece.\<close>

fun split_comma :: "string \<Rightarrow> string list" where
  "split_comma [] = [[]]"
| "split_comma (c # cs) =
     (if c = CHR '','' then [] # split_comma cs
      else (case split_comma cs of w # ws \<Rightarrow> (c # w) # ws | [] \<Rightarrow> [[c]]))"

text \<open>\<open>tuple(map(int, parts))\<close>: the first piece that is no integer raises ValueError.\<close>

fun ints_of_strs :: "string list \<Rightarrow> int list option" where
  "ints_of_strs [] = Some []"
| "ints_of_strs (s # ss) =
     (case int_of_str s of
        None \<Rightarrow> None
      | Some i \<Rightarrow> map_option ((#) i) (ints_of_strs ss))"

text \<open>
  A document is the JSON object that \<open>json.dump\<close> writes and \<open>json.load\<close> returns, as a
  dict from strings to strings (vocabulary) or to integers (merges); \<open>json.load\<close> returns
  what \<open>json.dump\<close> wrote. A file that \<open>load\<close> opens is missing or unreadable (\<open>open\<close>
  raises OSError), is no JSON (\<open>json.load\<close> raises JSONDecodeError), or holds a document.
\<close>

type_synonym vocab_doc = "(string, string) dict"
type_synonym merges_doc = "(string, int) dict"

datatype 'a file_content = Missing | Garbage | Json 'a

text \<open>
  \<^verbatim>\<open>vocab_serializable = {str(k): v.hex() for k, v in self.vocab.items()}
  merges_serializable = {f"{k[0]},{k[1]}": v for k, v in self.merges.items()}\<close>
  \<open>k[1]\<close> raises IndexError on a key with fewer than two members.
\<close>

fun vocab_serializable :: "(int, bytes) dict \<Rightarrow> vocab_doc \<Rightarrow> vocab_doc" where
  "vocab_serializable [] doc = doc"
| "vocab_serializable ((k, v) # items) doc =
     vocab_serializable items (dict_set doc (str_of_int k) (hex v))"

fun merges_serializable :: "(int list, int) dict \<Rightarrow> merges_doc \<Rightarrow> error + merges_doc" where
  "merges_serializable [] doc = Inr doc"
| "merges_serializable ((k, v) # items) doc =
     (case k of
        a # b # _ \<Rightarrow>
          merges_serializable items (dict_set doc (str_of_int a @ '','' @ str_of_int b) v)
      | _ \<Rightarrow> Inl IndexError)"

text \<open>
  \<open>save\<close> builds both documents, then opens and writes the vocabulary file, then the
  merges file; \<open>open\<close> raises OSError on a path that cannot be written. The result is the
  exception raised, if any, and the documents written. \<open>save\<close> assigns nothing to
  \<open>self\<close>.
\<close>

definition save :: "tokenizer \<Rightarrow> bool \<Rightarrow> bool \<Rightarrow> error option \<times> vocab_doc option \<times> merges_doc option" where
  "save st vocab_writable merges_writable =
     (let vd = vocab_serializable (vocab st) [] in
      case merges_serializable (merges st) [] of
        Inl e \<Rightarrow> (Some e, None, None)
      | Inr md \<Rightarrow>
          if \<not> vocab_writable then (Some OSError, None, None)
          else if \<not> merges_writable then (Some OSError, Some vd, None)
          else (None, Some vd, Some md))"

text \<open>
  \<^verbatim>\<open>self.vocab = {int(k): bytes.fromhex(v) for k, v in vocab_serializable.items()}
  self.merges = {tuple(map(int, k.split(','))): v for k, v in merges_serializable.items()}\<close>
\<close>

fun load_vocab :: "vocab_doc \<Rightarrow> (int, bytes) dict \<Rightarrow> error + (int, bytes) dict" where
  "load_vocab [] d = Inr d"
| "load_vocab ((k, v) # items) d =
     (case int_of_str k of
        None \<Rightarrow> Inl ValueError
      | Some i \<Rightarrow>
          (case fromhex v of
             None \<Rightarrow> Inl ValueError
           | Some bs \<Rightarrow> load_vocab items (dict_set d i bs)))"

fun load_merges :: "merges_doc \<Rightarrow> (int list, int) dict \<Rightarrow> error + (int list, int) dict" where
  "load_merges [] d = Inr d"
| "load_merges ((k, v) # items) d =
     (case ints_of_strs (split_comma k) of
        None \<Rightarrow> Inl ValueError
      | Some t \<Rightarrow> load_merges items (dict_set d t v))"

text \<open>
  \<open>load\<close> reads and converts the vocabulary file and assigns \<open>self.vocab\<close>; only then it
  reads and converts the merges file and assigns \<open>self.merges\<close>. The result is the
  exception raised, if any, and the tokenizer afterwards.
\<close>

definition load :: "tokenizer \<Rightarrow> vocab_doc file_content \<Rightarrow> merges_doc file_content \<Rightarrow> error option \<times> tokenizer" where
  "load st vocab_file merges_file =
     (case vocab_file of
        Missing \<Rightarrow> (Some OSError, st)
      | Garbage \<Rightarrow> (Some JSONDecodeError, st)
      | Json vd \<Rightarrow>
          (case load_vocab vd [] of
             Inl e \<Rightarrow> (Some e, st)
           | Inr v \<Rightarrow>
               let st1 = st\<lparr>vocab := v\<rparr> in
               (case merges_file of
                  Missing \<Rightarrow> (Some OSError, st1)
                | Garbage \<Rightarrow> (Some JSONDecodeError, st1)
                | Json md \<Rightarrow>
                    (case load_merges md [] of
                       Inl e \<Rightarrow> (Some e, st1)
                     | Inr m \<Rightarrow> (None, st1\<lparr>merges := m\<rparr>)))))"

subsection \<open>A call of a method and the tokenizer after it\<close>

text \<open>
  The five operations as calls on one tokenizer object: the exception raised, if any, and
  the object after the call. \<open>encode\<close>, \<open>decode\<close> and \<open>save\<close> contain no assignment to
  \<open>self.vocab\<close> or \<open>self.merges\<close>.
\<close>

datatype call =
  Train str int
  | Encode str
  | Decode "int list"
  | Save bool bool
  | Load "vocab_doc file_content" "merges_doc file_content"

fun run :: "tokenizer \<Rightarrow> call \<Rightarrow> error option \<times> tokenizer" where
  "run st (Train text vocab_size) = train st text vocab_size"
| "run st (Encode text) = (case encode st text of Inl e \<Rightarrow> (Some e, st) | Inr _ \<Rightarrow> (None, st))"
| "run st (Decode ids) = (case decode st ids of Inl e \<Rightarrow> (Some e, st) | Inr _ \<Rightarrow> (None, st))"
| "run st (Save vw mw) = (fst (save st vw mw), st)"
| "run st (Load vf mf) = load st vf mf"

section \<open>Facts about selection and statistics\<close>

lemma select_first_cong:
  "\<forall>x\<in>set (b # xs). \<forall>y\<in>set (b # xs). B (key x) (key y) = B' (key' x) (key' y)
   \<Longrightarrow> select_first B key b xs = select_first B' key' b xs"
proof (induction xs arbitrary: b)
  case Nil
  then show ?case by simp
next
  case (Cons x xs)
  have eq: "B (key x) (key b) = B' (key' x) (key' b)"
    using Cons.prems by simp
  have "select_first B key x xs = select_first B' key' x xs"
    by (rule Cons.IH) (use Cons.prems in simp)
  moreover have "select_first B key b xs = select_first B' key' b xs"
    by (rule Cons.IH) (use Cons.prems in simp)
  ultimately show ?case using eq by simp
qed

lemma select_first_decomp:
  assumes tr: "\<And>a b c. B a b \<Longrightarrow> B b c \<Longrightarrow> B a c"
    and ntr: "\<And>a b c. B a b \<Longrightarrow> \<not> B c b \<Longrightarrow> B a c"
  shows "\<exists>l1 l2. b # xs = l1 @ select_first B key b xs # l2
           \<and> (\<forall>y\<in>set l1. B (key (select_first B key b xs)) (key y))
           \<and> (\<forall>y\<in>set l2. \<not> B (key y) (key (select_first B key b xs)))"
proof (induction xs arbitrary: b)
  case Nil
  have "[b] = [] @ b # []" by simp
  then show ?case by fastforce
next
  case (Cons x xs)
  show ?case
  proof (cases "B (key x) (key b)")
    case True
    define r where "r = select_first B key x xs"
    have sel: "select_first B key b (x # xs) = r" using True by (simp add: r_def)
    obtain l1 l2 where d: "x # xs = l1 @ r # l2"
      and a: "\<forall>y\<in>set l1. B (key r) (key y)"
      and c: "\<forall>y\<in>set l2. \<not> B (key y) (key r)"
      using Cons.IH [of x] unfolding r_def by blast
    have "B (key r) (key b)"
    proof (cases l1)
      case Nil
      then have "r = x" using d by simp
      then show ?thesis using True by simp
    next
      case (Cons z l1')
      then have "z = x" using d by simp
      then have "B (key r) (key x)" using a Cons by simp
      then show ?thesis using True tr by blast
    qed
    then have "b # x # xs = (b # l1) @ r # l2
        \<and> (\<forall>y\<in>set (b # l1). B (key r) (key y))
        \<and> (\<forall>y\<in>set l2. \<not> B (key y) (key r))"
      using d a c by simp
    then show ?thesis unfolding sel by blast
  next
    case False
    define r where "r = select_first B key b xs"
    have sel: "select_first B key b (x # xs) = r" using False by (simp add: r_def)
    obtain l1 l2 where d: "b # xs = l1 @ r # l2"
      and a: "\<forall>y\<in>set l1. B (key r) (key y)"
      and c: "\<forall>y\<in>set l2. \<not> B (key y) (key r)"
      using Cons.IH [of b] unfolding r_def by blast
    show ?thesis
    proof (cases l1)
      case Nil
      then have "r = b" "l2 = xs" using d by simp_all
      then have "b # x # xs = [] @ r # (x # xs)
        \<and> (\<forall>y\<in>set []. B (key r) (key y))
        \<and> (\<forall>y\<in>set (x # xs). \<not> B (key y) (key r))"
        using False c by simp
      then show ?thesis unfolding sel by blast
    next
      case (Cons z l1')
      then have z: "z = b" and xs: "xs = l1' @ r # l2" using d by simp_all
      have "B (key r) (key b)" using a Cons z by simp
      then have "B (key r) (key x)" using False ntr by blast
      then have "b # x # xs = (b # x # l1') @ r # l2
        \<and> (\<forall>y\<in>set (b # x # l1'). B (key r) (key y))
        \<and> (\<forall>y\<in>set l2. \<not> B (key y) (key r))"
        using xs a c Cons z by auto
      then show ?thesis unfolding sel by blast
    qed
  qed
qed

text \<open>
  The notions the specification uses: the adjacent pairs of a token sequence by
  position, the frequency of a pair (the number of positions where it stands), and the
  first position of an element in a list (the length of the list where it is absent).
\<close>

definition adjacent :: "int list \<Rightarrow> (int \<times> int) list" where
  "adjacent ids = map (\<lambda>i. (ids ! i, ids ! (i + 1))) [0..<length ids - 1]"

definition frequency :: "int list \<Rightarrow> int \<times> int \<Rightarrow> int" where
  "frequency ids q = int (length (filter (\<lambda>i. (ids ! i, ids ! (i + 1)) = q) [0..<length ids - 1]))"

definition first_pos :: "'a list \<Rightarrow> 'a \<Rightarrow> nat" where
  "first_pos ps q = length (takeWhile (\<lambda>x. x \<noteq> q) ps)"

lemma adjacent_zip: "adjacent ids = zip ids (drop 1 ids)"
  by (rule nth_equalityI) (auto simp: adjacent_def)

lemma frequency_count: "frequency ids q = int (count_list (adjacent ids) q)"
proof -
  have "(\<lambda>i. (ids ! i, ids ! (i + 1)) = q) = (\<lambda>i. q = (ids ! i, ids ! (i + 1)))" by auto
  then show ?thesis
    unfolding frequency_def adjacent_def
    by (simp add: comp_def count_list_eq_length_filter)
qed

lemma dict_set_distinct: "distinct (map fst d) \<Longrightarrow> distinct (map fst (dict_set d k v))"
  by (induction d) (auto simp: dict_set_keys)

lemma dict_set_map_of: "map_of (dict_set d k v) = (map_of d)(k \<mapsto> v)"
  by (induction d) auto

lemma dict_set_map_fst:
  "map fst (dict_set d k v) = (if k \<in> fst ` set d then map fst d else map fst d @ [k])"
  by (induction d) (simp, force)

lemma first_pos_append: "q \<in> set pre \<Longrightarrow> first_pos (pre @ ys) q = first_pos pre q"
  by (simp add: first_pos_def takeWhile_append1) 

lemma first_pos_less: "q \<in> set pre \<Longrightarrow> first_pos pre q < length pre"
  unfolding first_pos_def by (induction pre) auto

lemma first_pos_new: "q \<notin> set pre \<Longrightarrow> first_pos (pre @ [q]) q = length pre"
  unfolding first_pos_def by (induction pre) auto

text \<open>
  What \<open>get_stats_loop\<close> has built after reading the prefix \<open>pre\<close>: the keys are the
  pairs of \<open>pre\<close>, each once, with its count, in the order of their first occurrence.
\<close>

definition stats_inv :: "(int \<times> int) list \<Rightarrow> (int \<times> int, int) dict \<Rightarrow> bool" where
  "stats_inv pre acc \<longleftrightarrow>
     distinct (map fst acc) \<and> fst ` set acc = set pre
     \<and> (\<forall>q\<in>set pre. map_of acc q = Some (int (count_list pre q)))
     \<and> sorted_wrt (\<lambda>p q. first_pos pre p < first_pos pre q) (map fst acc)"

lemma stats_inv_step:
  assumes "stats_inv pre acc"
  shows "stats_inv (pre @ [x]) (dict_set acc x (dict_get_default acc x 0 + 1))"
proof -
  from assms have d: "distinct (map fst acc)" and k: "fst ` set acc = set pre"
    and c: "\<forall>q\<in>set pre. map_of acc q = Some (int (count_list pre q))"
    and s: "sorted_wrt (\<lambda>p q. first_pos pre p < first_pos pre q) (map fst acc)"
    by (simp_all add: stats_inv_def)
  let ?acc = "dict_set acc x (dict_get_default acc x 0 + 1)"
  have g: "dict_get_default acc x 0 = int (count_list pre x)"
  proof (cases "x \<in> set pre")
    case True
    then show ?thesis using c by (simp add: dict_get_default_def)
  next
    case False
    then have "map_of acc x = None" using k by (simp add: map_of_eq_None_iff)
    then show ?thesis using False by (simp add: dict_get_default_def)
  qed
  have 1: "distinct (map fst ?acc)" using d by (rule dict_set_distinct)
  have 2: "fst ` set ?acc = set (pre @ [x])" using k by (simp add: dict_set_keys)
  have 3: "\<forall>q\<in>set (pre @ [x]). map_of ?acc q = Some (int (count_list (pre @ [x]) q))"
    using c g by (auto simp: dict_set_map_of)
  have 4: "sorted_wrt (\<lambda>p q. first_pos (pre @ [x]) p < first_pos (pre @ [x]) q) (map fst ?acc)"
  proof (cases "x \<in> set pre")
    case True
    then have "map fst ?acc = map fst acc" using k by (simp add: dict_set_map_fst)
    moreover have "sorted_wrt (\<lambda>p q. first_pos (pre @ [x]) p < first_pos (pre @ [x]) q) (map fst acc)"
      using s
    proof (rule sorted_wrt_mono_rel [rotated])
      fix p q assume "p \<in> set (map fst acc)" "q \<in> set (map fst acc)"
        and "first_pos pre p < first_pos pre q"
      then show "first_pos (pre @ [x]) p < first_pos (pre @ [x]) q"
        using k by (simp add: first_pos_append)
    qed
    ultimately show ?thesis by simp
  next
    case False
    then have m: "map fst ?acc = map fst acc @ [x]" using k by (simp add: dict_set_map_fst)
    have a: "sorted_wrt (\<lambda>p q. first_pos (pre @ [x]) p < first_pos (pre @ [x]) q) (map fst acc)"
      using s
    proof (rule sorted_wrt_mono_rel [rotated])
      fix p q assume "p \<in> set (map fst acc)" "q \<in> set (map fst acc)"
        and "first_pos pre p < first_pos pre q"
      then show "first_pos (pre @ [x]) p < first_pos (pre @ [x]) q"
        using k by (simp add: first_pos_append)
    qed
    have b: "\<forall>y\<in>set (map fst acc). first_pos (pre @ [x]) y < first_pos (pre @ [x]) x"
      using k False by (simp add: first_pos_append first_pos_new first_pos_less)
    show ?thesis unfolding m using a b by (simp add: sorted_wrt_append)
  qed
  show ?thesis unfolding stats_inv_def using 1 2 3 4 by blast
qed

lemma stats_inv_loop:
  "stats_inv pre acc \<Longrightarrow> stats_inv (pre @ ps) (get_stats_loop ps acc)"
proof (induction ps arbitrary: pre acc)
  case Nil
  then show ?case by simp
next
  case (Cons p ps)
  have "stats_inv ((pre @ [p]) @ ps) (get_stats_loop ps (dict_set acc p (dict_get_default acc p 0 + 1)))"
    by (rule Cons.IH) (rule stats_inv_step [OF Cons.prems])
  then show ?case by simp
qed

lemma stats_inv_get_stats: "stats_inv (adjacent ids) (get_stats ids)"
  using stats_inv_loop [of "[]" "[]" "adjacent ids"]
  by (simp add: stats_inv_def get_stats_def adjacent_zip)

lemma train_pick_props:
  assumes len: "2 \<le> length ids"
  shows "\<exists>p. train_pick (get_stats ids) = Some p
           \<and> p \<in> set (adjacent ids)
           \<and> (\<forall>q. frequency ids q \<le> frequency ids p)
           \<and> (\<forall>q. q \<noteq> p \<and> frequency ids q = frequency ids p
                 \<longrightarrow> first_pos (adjacent ids) p < first_pos (adjacent ids) q)"
proof -
  let ?ps = "adjacent ids"
  let ?st = "get_stats ids"
  have inv: "stats_inv ?ps ?st" by (rule stats_inv_get_stats)
  then have k: "fst ` set ?st = set ?ps"
    and c: "\<forall>q\<in>set ?ps. map_of ?st q = Some (frequency ids q)"
    and s: "sorted_wrt (\<lambda>p q. first_pos ?ps p < first_pos ?ps q) (map fst ?st)"
    by (simp_all add: stats_inv_def frequency_count)
  have "?ps \<noteq> []" using len by (auto simp: adjacent_def)
  then have "map fst ?st \<noteq> []" using k by auto
  then obtain b xs where bx: "map fst ?st = b # xs" by (cases "map fst ?st") auto
  define r where "r = select_first count_gt (map_of ?st) b xs"
  have pick: "train_pick ?st = Some r" by (simp add: train_pick_def bx r_def)
  have keys: "set (b # xs) = set ?ps" using k bx by (metis set_map)
  have "\<forall>x\<in>set (b # xs). \<forall>y\<in>set (b # xs).
          count_gt (map_of ?st x) (map_of ?st y) = (frequency ids y < frequency ids x)"
    using c keys by simp
  then have r': "r = select_first (\<lambda>a b. b < a) (frequency ids) b xs"
    unfolding r_def by (rule select_first_cong)
  have dec: "\<exists>l1 l2. b # xs = l1 @ select_first (\<lambda>a b. b < a) (frequency ids) b xs # l2
      \<and> (\<forall>y\<in>set l1. frequency ids y < frequency ids (select_first (\<lambda>a b. b < a) (frequency ids) b xs))
      \<and> (\<forall>y\<in>set l2. \<not> frequency ids (select_first (\<lambda>a b. b < a) (frequency ids) b xs) < frequency ids y)"
    by (rule select_first_decomp [where B = "\<lambda>a b. (b::int) < a"]) linarith+
  obtain l1 l2 where d: "b # xs = l1 @ r # l2"
    and lo: "\<forall>y\<in>set l1. frequency ids y < frequency ids r"
    and hi: "\<forall>y\<in>set l2. \<not> frequency ids r < frequency ids y"
    using dec unfolding r' [symmetric] by blast
  have rin: "r \<in> set ?ps" using d keys by (metis in_set_conv_decomp)
  have "count_list ?ps r \<noteq> 0" using rin by (simp add: count_list_0_iff)
  then have pos: "0 < frequency ids r" by (simp add: frequency_count)
  have mx: "frequency ids q \<le> frequency ids r" for q
  proof (cases "q \<in> set ?ps")
    case True
    then have "q \<in> set (l1 @ r # l2)" using keys d by simp
    then show ?thesis using lo hi by auto
  next
    case False
    then have "frequency ids q = 0" by (simp add: frequency_count)
    then show ?thesis using pos by simp
  qed
  have tie: "first_pos ?ps r < first_pos ?ps q" if "q \<noteq> r" "frequency ids q = frequency ids r" for q
  proof -
    have "count_list ?ps q \<noteq> 0" using that pos by (simp add: frequency_count)
    then have "q \<in> set ?ps" by (simp add: count_list_0_iff)
    then have "q \<in> set (l1 @ r # l2)" using keys d by simp
    then have "q \<in> set l2" using that lo by auto
    moreover have "sorted_wrt (\<lambda>p q. first_pos ?ps p < first_pos ?ps q) (l1 @ r # l2)"
      using s bx d by simp
    ultimately show ?thesis by (simp add: sorted_wrt_append)
  qed
  show ?thesis using pick rin mx tie by blast
qed

lemma prio_lt_trans: "prio_lt a b \<Longrightarrow> prio_lt b c \<Longrightarrow> prio_lt a c"
  by (cases a; cases b; cases c) auto

lemma prio_lt_negtrans: "prio_lt a b \<Longrightarrow> \<not> prio_lt c b \<Longrightarrow> prio_lt a c"
  by (cases a; cases b; cases c) auto

lemma encode_pick_props:
  assumes len: "2 \<le> length tokens"
  shows "\<exists>p. encode_pick m tokens = Some p \<and> p \<in> set (adjacent tokens)
           \<and> (\<forall>q\<in>set (adjacent tokens). \<not> prio_lt (map_of m (tuple_of q)) (map_of m (tuple_of p)))"
proof -
  let ?key = "\<lambda>p. map_of m (tuple_of p)"
  have k: "fst ` set (get_stats tokens) = set (adjacent tokens)"
    by (simp add: get_stats_keys adjacent_zip)
  have "adjacent tokens \<noteq> []" using len by (auto simp: adjacent_def)
  then have "map fst (get_stats tokens) \<noteq> []" using k by auto
  then obtain b xs where bx: "map fst (get_stats tokens) = b # xs"
    by (cases "map fst (get_stats tokens)") auto
  define r where "r = select_first prio_lt ?key b xs"
  have pick: "encode_pick m tokens = Some r" by (simp add: encode_pick_def bx r_def)
  have keys: "set (b # xs) = set (adjacent tokens)" using k bx by (metis set_map)
  have dec: "\<exists>l1 l2. b # xs = l1 @ select_first prio_lt ?key b xs # l2
      \<and> (\<forall>y\<in>set l1. prio_lt (?key (select_first prio_lt ?key b xs)) (?key y))
      \<and> (\<forall>y\<in>set l2. \<not> prio_lt (?key y) (?key (select_first prio_lt ?key b xs)))"
    by (rule select_first_decomp [where B = prio_lt]) (erule (1) prio_lt_trans prio_lt_negtrans)+
  then obtain l1 l2 where d: "b # xs = l1 @ r # l2"
    and lo: "\<forall>y\<in>set l1. prio_lt (?key r) (?key y)"
    and hi: "\<forall>y\<in>set l2. \<not> prio_lt (?key y) (?key r)"
    unfolding r_def [symmetric] by blast
  have rin: "r \<in> set (adjacent tokens)" using d keys by (metis in_set_conv_decomp)
  have irr: "\<not> prio_lt a a" for a by (cases a) auto
  have asym: "prio_lt a c \<Longrightarrow> \<not> prio_lt c a" for a c by (cases a; cases c) auto
  have "\<not> prio_lt (?key q) (?key r)" if "q \<in> set (adjacent tokens)" for q
  proof -
    from that have "q \<in> set (l1 @ r # l2)" using keys d by simp
    then show ?thesis using lo hi irr asym by auto
  qed
  with pick rin show ?thesis by blast
qed

subsection \<open>UTF-8: decoding an encoded string\<close>

lemma unat_byte: "n < 256 \<Longrightarrow> unat (of_nat n :: 8 word) = n"
  by (simp add: unat_of_nat)

lemma split3:
  fixes c :: nat
  shows "c = 4096 * (c div 4096) + 64 * (c div 64 mod 64) + c mod 64"
proof -
  have "c mod 4096 = 64 * (c div 64 mod 64) + c mod 64"
    using mod_mult2_eq [of c 64 64] by simp
  moreover have "c = 4096 * (c div 4096) + c mod 4096" by simp
  ultimately show ?thesis by linarith
qed

lemma split4:
  fixes c :: nat
  shows "c = 262144 * (c div 262144) + 4096 * (c div 4096 mod 64) + 64 * (c div 64 mod 64) + c mod 64"
proof -
  have "c mod 4096 = 64 * (c div 64 mod 64) + c mod 64"
    using mod_mult2_eq [of c 64 64] by simp
  moreover have "c mod 262144 = 4096 * (c div 4096 mod 64) + c mod 4096"
    using mod_mult2_eq [of c 4096 64] by simp
  moreover have "c = 262144 * (c div 262144) + c mod 262144" by simp
  ultimately show ?thesis by linarith
qed

lemma lo3: fixes c :: nat assumes "2048 \<le> c" "c div 4096 = 0" shows "32 \<le> c div 64 mod 64"
proof -
  have "c mod 64 < 64" by simp
  then show ?thesis using split3 [of c] assms by linarith
qed

lemma hi3:
  fixes c :: nat
  assumes "\<not> (0xD800 \<le> c \<and> c < 0xE000)" "c div 4096 = 13"
  shows "c div 64 mod 64 < 32"
proof -
  have b: "c mod 64 < 64" "c div 64 mod 64 < 64" by simp_all
  then have "c < 0xE000" using split3 [of c] assms(2) by linarith
  then have "c < 0xD800" using assms(1) by simp
  then show ?thesis using split3 [of c] assms(2) by linarith
qed

lemma lo4: fixes c :: nat assumes "0x10000 \<le> c" "c div 262144 = 0" shows "16 \<le> c div 4096 mod 64"
proof -
  have "c mod 64 < 64" "c div 64 mod 64 < 64" by simp_all
  then show ?thesis using split4 [of c] assms by linarith
qed

lemma hi4: fixes c :: nat assumes "c < 0x110000" "c div 262144 = 4" shows "c div 4096 mod 64 < 16"
  using split4 [of c] assms by linarith

lemma utf8_char_values_byte:
  "utf8_char_values c = Some ns \<Longrightarrow> n \<in> set ns \<Longrightarrow> n < 256"
  by (auto simp: utf8_char_values_def split: if_splits)

lemma utf8_values_roundtrip:
  assumes "utf8_char_values c = Some ns"
  shows "utf8_decode_loop (ns @ rest) = c # utf8_decode_loop rest"
proof -
  consider (a) "c < 0x80" | (b) "0x80 \<le> c" "c < 0x800"
    | (c) "0x800 \<le> c" "c < 0x10000" "\<not> (0xD800 \<le> c \<and> c < 0xE000)"
    | (d) "0x10000 \<le> c" "c < 0x110000"
    using assms by (auto simp: utf8_char_values_def split: if_splits)
  then show ?thesis
  proof cases
    case a
    then have "ns = [c]" using assms by (simp add: utf8_char_values_def)
    then show ?thesis using a by (simp add: utf8_decode_head.simps)
  next
    case b
    then have ns: "ns = [0xC0 + c div 64, 0x80 + c mod 64]"
      using assms by (simp add: utf8_char_values_def)
    have 1: "0xC2 \<le> 0xC0 + c div 64" "0xC0 + c div 64 < 0xE0"
      using b by auto
    show ?thesis unfolding ns using 1 b
      by (simp add: utf8_decode_head.simps is_cont_def)
  next
    case c
    then have ns: "ns = [0xE0 + c div 4096, 0x80 + c div 64 mod 64, 0x80 + c mod 64]"
      using assms by (auto simp: utf8_char_values_def split: if_splits)
    have 1: "0xE0 + c div 4096 < 0xF0" "0x80 + c div 64 mod 64 < 0xC0" "0x80 + c mod 64 < 0xC0" 
      using c by auto
    have lo: "c div 4096 = 0 \<Longrightarrow> 32 \<le> c div 64 mod 64"
      using c(1) by (rule lo3)
    have hi: "c div 4096 = 13 \<Longrightarrow> c div 64 mod 64 < 32"
      using c(3) by (rule hi3)
    have 2: "\<not> bad_second (0xE0 + c div 4096) (0x80 + c div 64 mod 64)"
      using lo hi 1 unfolding bad_second_def is_cont_def by auto
    have 3: "c div 4096 * 4096 + c div 64 mod 64 * 64 + c mod 64 = c"
      using split3 [of c] by linarith
    show ?thesis unfolding ns using 1 2 3
      by (simp add: utf8_decode_head.simps is_cont_def)
  next
    case d
    then have ns: "ns = [0xF0 + c div 262144, 0x80 + c div 4096 mod 64,
              0x80 + c div 64 mod 64, 0x80 + c mod 64]"
      using assms by (auto simp: utf8_char_values_def split: if_splits)
    have 1: "0xF0 + c div 262144 < 0xF5" "0x80 + c div 4096 mod 64 < 0xC0"
       "0x80 + c div 64 mod 64 < 0xC0" "0x80 + c mod 64 < 0xC0" 
      using d by auto
    have lo: "c div 262144 = 0 \<Longrightarrow> 16 \<le> c div 4096 mod 64"
      using d(1) by (rule lo4)
    have hi: "c div 262144 = 4 \<Longrightarrow> c div 4096 mod 64 < 16"
      using d(2) by (rule hi4)
    have 2: "\<not> bad_second (0xF0 + c div 262144) (0x80 + c div 4096 mod 64)"
      using lo hi 1 unfolding bad_second_def is_cont_def by auto
    have 3: "c div 262144 * 262144 + c div 4096 mod 64 * 4096 + c div 64 mod 64 * 64 + c mod 64 = c"
      using split4 [of c] by linarith
    show ?thesis unfolding ns using 1 2 3
      by (simp add: utf8_decode_head.simps is_cont_def)
  qed
qed

lemma utf8_char_roundtrip:
  assumes "utf8_encode_char c = Some cb"
  shows "utf8_decode_loop (map unat cb @ rest) = c # utf8_decode_loop rest"
proof -
  obtain ns where ns: "utf8_char_values c = Some ns" and cb: "cb = map of_nat ns"
    using assms by (auto simp: utf8_encode_char_def)
  have "map unat cb = ns"
    unfolding cb using utf8_char_values_byte [OF ns]
    by (simp add: map_idI unat_byte)
  then show ?thesis using utf8_values_roundtrip [OF ns] by simp
qed

lemma utf8_roundtrip: "utf8_encode T = Some bs \<Longrightarrow> utf8_decode_replace bs = T"
  unfolding utf8_decode_replace_def
  by (induction T arbitrary: bs) (auto split: option.splits simp: utf8_char_roundtrip)

subsection \<open>Facts about merging\<close>

lemma adjacent_Cons2: "adjacent (x # y # rest) = (x, y) # adjacent (y # rest)"
  by (simp add: adjacent_zip)

lemma adjacent_single: "adjacent [x] = []" and adjacent_Nil: "adjacent [] = []"
  by (simp_all add: adjacent_zip)

lemma adjacent_Cons_cases:
  "adjacent (x # ys) = (case ys of [] \<Rightarrow> [] | y # _ \<Rightarrow> (x, y) # adjacent ys)"
  by (cases ys) (simp_all add: adjacent_zip)

lemma merge_spec_set: "set (merge_spec ids p idx) \<subseteq> insert idx (set ids)"
  by (induction ids p idx rule: merge_spec.induct) auto

lemma merge_spec_nonempty: "ids \<noteq> [] \<Longrightarrow> merge_spec ids p idx \<noteq> []"
  by (induction ids p idx rule: merge_spec.induct) auto

lemma merge_spec_head:
  "\<exists>h t. merge_spec (y # rest) p idx = h # t \<and> (h = idx \<or> h = y)"
  by (cases rest) auto

lemma merge_spec_removes_pair:
  "idx \<noteq> fst p \<Longrightarrow> idx \<noteq> snd p \<Longrightarrow> p \<notin> set (adjacent (merge_spec ids p idx))"
proof (induction ids p idx rule: merge_spec.induct)
  case (1 x y rest pair idx)
  show ?case
  proof (cases "x = fst pair \<and> y = snd pair")
    case True
    have "pair \<notin> set (adjacent (merge_spec rest pair idx))"
      using "1.IH"(1) True "1.prems" by simp
    moreover have "pair \<noteq> (idx, h)" for h using "1.prems" by auto
    ultimately show ?thesis
      using True by (auto simp: adjacent_Cons_cases split: list.splits)
  next
    case False
    obtain h t where ht: "merge_spec (y # rest) pair idx = h # t" and h: "h = idx \<or> h = y"
      using merge_spec_head by blast
    have "pair \<notin> set (adjacent (h # t))"
      using "1.IH"(2) False "1.prems" ht by simp
    moreover have "pair \<noteq> (x, h)" using h False "1.prems" by auto
    ultimately show ?thesis
      using False ht by (auto simp: adjacent_Cons2)
  qed
qed (simp_all add: adjacent_zip)

lemma adjacent_tail: "q \<in> set (adjacent ys) \<Longrightarrow> q \<in> set (adjacent (x # ys))"
  by (cases ys) (auto simp: adjacent_zip)

lemma merge_spec_no_new_pair:
  "(a, b) \<in> set (adjacent (merge_spec ids p idx)) \<Longrightarrow> a \<noteq> idx \<Longrightarrow> b \<noteq> idx
   \<Longrightarrow> (a, b) \<in> set (adjacent ids)"
proof (induction ids p idx rule: merge_spec.induct)
  case (1 x y rest pair idx)
  show ?case
  proof (cases "x = fst pair \<and> y = snd pair")
    case True
    then have "(a, b) \<in> set (adjacent (idx # merge_spec rest pair idx))"
      using "1.prems"(1) by simp
    then have "(a, b) \<in> set (adjacent (merge_spec rest pair idx))"
      using "1.prems"(2) by (auto simp: adjacent_Cons_cases split: list.splits)
    then have "(a, b) \<in> set (adjacent rest)"
      using "1.IH"(1) True "1.prems" by simp
    then show ?thesis by (intro adjacent_tail)
  next
    case False
    obtain h t where ht: "merge_spec (y # rest) pair idx = h # t" and h: "h = idx \<or> h = y"
      using merge_spec_head by blast
    have "(a, b) \<in> set (adjacent (x # h # t))"
      using "1.prems"(1) False ht by simp
    then consider "(a, b) = (x, h)" | "(a, b) \<in> set (adjacent (h # t))"
      by (auto simp: adjacent_Cons2)
    then show ?thesis
    proof cases
      case 1
      then have "h = y" using h "1.prems"(3) by auto
      then show ?thesis using 1 by (simp add: adjacent_Cons2)
    next
      case 2
      then have "(a, b) \<in> set (adjacent (y # rest))"
        using "1.IH"(2) False "1.prems" ht by simp
      then show ?thesis by (simp add: adjacent_Cons2)
    qed
  qed
qed (simp_all add: adjacent_zip)

lemma join_vocab_merge_spec:
  assumes "map_of v (fst p) = Some l" "map_of v (snd p) = Some r" "map_of v idx = Some (l @ r)"
  shows "join_vocab v (merge_spec ids p idx) = join_vocab v ids"
  using assms
  by (induction ids p idx rule: merge_spec.induct) (auto split: option.splits sum.splits)

subsection \<open>The invariant of training\<close>

text \<open>
  After \<open>k\<close> merges: the vocabulary has the IDs 0 to 255 + k in this order, the merge
  table has the IDs 256 to 255 + k in this order under distinct keys, every token of
  the working sequence is below 256 + k, every key of the merge table is a pair of such
  tokens that no longer stands in the working sequence, a byte expands to itself, and a
  merged ID expands to the expansions of its pair.
\<close>

definition train_inv :: "nat \<Rightarrow> int list \<Rightarrow> tokenizer \<Rightarrow> bool" where
  "train_inv k ids st \<longleftrightarrow>
     map fst (vocab st) = [0..255 + int k]
     \<and> map snd (merges st) = [256..255 + int k]
     \<and> distinct (map fst (merges st))
     \<and> (\<forall>t\<in>set ids. 0 \<le> t \<and> t < 256 + int k)
     \<and> (\<forall>key\<in>fst ` set (merges st). \<exists>a b. key = [a, b] \<and> a < 256 + int k \<and> b < 256 + int k
            \<and> (a, b) \<notin> set (adjacent ids))
     \<and> (\<forall>b. 0 \<le> b \<and> b < 256 \<longrightarrow> map_of (vocab st) b = Some [word_of_int b])
     \<and> (\<forall>kv\<in>set (merges st). \<exists>a b l r. fst kv = [a, b] \<and> map_of (vocab st) a = Some l
            \<and> map_of (vocab st) b = Some r \<and> map_of (vocab st) (snd kv) = Some (l @ r))"

lemma dict_set_append:
  "k \<notin> fst ` set d \<Longrightarrow> dict_set d k v = d @ [(k, v)]"
  by (induction d) auto

lemma adjacent_mem_set: "(a, b) \<in> set (adjacent ids) \<Longrightarrow> a \<in> set ids \<and> b \<in> set ids"
  unfolding adjacent_zip by (auto dest: set_zip_leftD set_zip_rightD in_set_dropD)

lemma upto_snoc: "i \<le> j + 1 \<Longrightarrow> [i..j + 1] = [i..j] @ [j + 1]"
  using upto_rec2 [of i "j + 1"] by simp

lemma train_step_inv:
  assumes inv: "train_inv k ids st" and pin: "p \<in> set (adjacent ids)"
  shows "\<exists>st'. train_step (int k) p ids st = (None, merge ids p (256 + int k), st')
           \<and> train_inv (Suc k) (merge ids p (256 + int k)) st'"
proof -
  let ?idx = "256 + int k"
  let ?ids' = "merge ids p ?idx"
  from inv have vk: "map fst (vocab st) = [0..255 + int k]"
    and mv: "map snd (merges st) = [256..255 + int k]"
    and md: "distinct (map fst (merges st))"
    and tk: "\<forall>t\<in>set ids. 0 \<le> t \<and> t < 256 + int k"
    and mk: "\<forall>key\<in>fst ` set (merges st). \<exists>a b. key = [a, b] \<and> a < 256 + int k \<and> b < 256 + int k
            \<and> (a, b) \<notin> set (adjacent ids)"
    and vb: "\<forall>b. 0 \<le> b \<and> b < 256 \<longrightarrow> map_of (vocab st) b = Some [word_of_int b]"
    and me: "\<forall>kv\<in>set (merges st). \<exists>a b l r. fst kv = [a, b] \<and> map_of (vocab st) a = Some l
            \<and> map_of (vocab st) b = Some r \<and> map_of (vocab st) (snd kv) = Some (l @ r)"
    unfolding train_inv_def by blast+
  obtain a b where p: "p = (a, b)" by (cases p)
  have ab: "a \<in> set ids" "b \<in> set ids" using pin p adjacent_mem_set by blast+
  have ar: "0 \<le> a" "a < ?idx" "0 \<le> b" "b < ?idx" using ab tk by auto
  have keys: "fst ` set (vocab st) = {0..255 + int k}" using vk by (metis set_map set_upto)
  have "a \<in> fst ` set (vocab st)" "b \<in> fst ` set (vocab st)" using ar keys by auto
  then obtain l r where l: "map_of (vocab st) a = Some l" and r: "map_of (vocab st) b = Some r"
    by (meson map_of_eq_None_iff not_Some_eq)
  have fresh_v: "?idx \<notin> fst ` set (vocab st)" using keys by simp
  have fresh_m: "tuple_of p \<notin> fst ` set (merges st)"
  proof
    assume "tuple_of p \<in> fst ` set (merges st)"
    then obtain a' b' where "tuple_of p = [a', b']" "(a', b') \<notin> set (adjacent ids)"
      using mk by blast
    then show False using pin p by (simp add: tuple_of_def)
  qed
  define st' where "st' = st\<lparr>merges := merges st @ [(tuple_of p, ?idx)],
                              vocab := vocab st @ [(?idx, l @ r)]\<rparr>"
  have step: "train_step (int k) p ids st = (None, ?ids', st')"
    using l r fresh_v fresh_m p
    by (simp add: train_step_def Let_def dict_set_append st'_def)
  have v': "vocab st' = vocab st @ [(?idx, l @ r)]" and m': "merges st' = merges st @ [(tuple_of p, ?idx)]"
    by (simp_all add: st'_def)
  have old: "map_of (vocab st') x = map_of (vocab st) x" if "x \<noteq> ?idx" for x
    using that unfolding v' by (simp add: map_of_append map_add_def split: option.splits)
  have old': "map_of (vocab st') x = Some y" if "map_of (vocab st) x = Some y" for x y
    using that unfolding v' by (simp add: map_of_append)
  have "map_of (vocab st) ?idx = None" using fresh_v by (simp add: map_of_eq_None_iff)
  then have new: "map_of (vocab st') ?idx = Some (l @ r)"
    unfolding v' by (simp add: map_of_append map_add_def)
  have 1: "map fst (vocab st') = [0..255 + int (Suc k)]"
    unfolding v' using vk upto_snoc [of 0 "255 + int k"] by (simp add: add.commute)
  have 2: "map snd (merges st') = [256..255 + int (Suc k)]"
    unfolding m' using mv upto_snoc [of 256 "255 + int k"] by (simp add: add.commute)
  have 3: "distinct (map fst (merges st'))"
    unfolding m' using md fresh_m by simp
  have sub: "set ?ids' \<subseteq> insert ?idx (set ids)"
    unfolding merge_eq_spec by (rule merge_spec_set)
  have 4: "\<forall>t\<in>set ?ids'. 0 \<le> t \<and> t < 256 + int (Suc k)"
    using sub tk by fastforce
  have 5: "\<forall>key\<in>fst ` set (merges st'). \<exists>a b. key = [a, b] \<and> a < 256 + int (Suc k) \<and> b < 256 + int (Suc k)
            \<and> (a, b) \<notin> set (adjacent ?ids')"
  proof
    fix key assume "key \<in> fst ` set (merges st')"
    then consider "key = tuple_of p" | "key \<in> fst ` set (merges st)" unfolding m' by auto
    then show "\<exists>a b. key = [a, b] \<and> a < 256 + int (Suc k) \<and> b < 256 + int (Suc k)
            \<and> (a, b) \<notin> set (adjacent ?ids')"
    proof cases
      case 1
      have "p \<notin> set (adjacent ?ids')"
        unfolding merge_eq_spec using ar p by (intro merge_spec_removes_pair) auto
      then show ?thesis using 1 p ar by (simp add: tuple_of_def)
    next
      case 2
      then obtain a' b' where k: "key = [a', b']" and lt: "a' < ?idx" "b' < ?idx"
        and na: "(a', b') \<notin> set (adjacent ids)"
        using mk by blast
      have "(a', b') \<notin> set (adjacent ?ids')"
        unfolding merge_eq_spec using merge_spec_no_new_pair [of a' b' ids p ?idx] lt na by auto
      then show ?thesis using k lt by simp
    qed
  qed
  have 6: "\<forall>b. 0 \<le> b \<and> b < 256 \<longrightarrow> map_of (vocab st') b = Some [word_of_int b]"
    using vb old' by blast
  have 7: "\<forall>kv\<in>set (merges st'). \<exists>a b l r. fst kv = [a, b] \<and> map_of (vocab st') a = Some l
            \<and> map_of (vocab st') b = Some r \<and> map_of (vocab st') (snd kv) = Some (l @ r)"
  proof
    fix kv assume "kv \<in> set (merges st')"
    then consider "kv = (tuple_of p, ?idx)" | "kv \<in> set (merges st)" unfolding m' by auto
    then show "\<exists>a b l r. fst kv = [a, b] \<and> map_of (vocab st') a = Some l
            \<and> map_of (vocab st') b = Some r \<and> map_of (vocab st') (snd kv) = Some (l @ r)"
    proof cases
      case 1
      then show ?thesis using p l r old' new by (simp add: tuple_of_def)
    next
      case 2
      then show ?thesis using me old' by meson
    qed
  qed
  have "train_inv (Suc k) ?ids' st'"
    unfolding train_inv_def using 1 2 3 4 5 6 7 by blast
  with step show ?thesis by blast
qed

lemma train_pick_mem:
  assumes "train_pick (get_stats ids) = Some p"
  shows "p \<in> set (adjacent ids)"
proof -
  obtain b xs where ks: "map fst (get_stats ids) = b # xs"
    and pr: "p = select_first count_gt (map_of (get_stats ids)) b xs"
    using assms by (auto simp: train_pick_def split: list.splits)
  have "p \<in> set (b # xs)" unfolding pr by (rule select_first_mem)
  then have "p \<in> fst ` set (get_stats ids)" using ks by (metis set_map)
  then show ?thesis by (simp only: get_stats_keys adjacent_zip)
qed

lemma merge_nonempty: "ids \<noteq> [] \<Longrightarrow> merge ids p idx \<noteq> []"
  by (simp add: merge_eq_spec merge_spec_nonempty)

lemma train_loop_inv:
  "train_inv k ids st \<Longrightarrow>
   \<exists>k' ids' st'. train_loop [int k..N] ids st = (None, ids', st') \<and> train_inv k' ids' st'
      \<and> k \<le> k' \<and> (k' = k \<or> int k' \<le> N + 1) \<and> (ids' = [] \<longleftrightarrow> ids = [])"
proof (induction "nat (N + 1 - int k)" arbitrary: k ids st)
  case 0
  then have "[int k..N] = []" by simp
  then show ?case using "0.prems" by auto
next
  case (Suc n)
  then have le: "int k \<le> N" by linarith
  then have lst: "[int k..N] = int k # [int (Suc k)..N]"
    using upto_rec1 [of "int k" N] by (simp add: add.commute)
  show ?case
  proof (cases "train_pick (get_stats ids)")
    case None
    then have "train_loop [int k..N] ids st = (None, ids, st)" unfolding lst by simp
    then show ?thesis using Suc.prems by auto
  next
    case (Some p)
    then have pin: "p \<in> set (adjacent ids)" by (rule train_pick_mem)
    then have ne: "ids \<noteq> []" by (auto simp: adjacent_zip)
    obtain st1 where step: "train_step (int k) p ids st = (None, merge ids p (256 + int k), st1)"
      and inv1: "train_inv (Suc k) (merge ids p (256 + int k)) st1"
      using train_step_inv [OF Suc.prems pin] by blast
    have "n = nat (N + 1 - int (Suc k))" using Suc.hyps(2) by simp
    from Suc.hyps(1) [OF this inv1]
    obtain k' ids' st' where
      r: "train_loop [int (Suc k)..N] (merge ids p (256 + int k)) st1 = (None, ids', st')"
      and i: "train_inv k' ids' st'" and kk: "Suc k \<le> k'" "k' = Suc k \<or> int k' \<le> N + 1"
      and e: "ids' = [] \<longleftrightarrow> merge ids p (256 + int k) = []"
      by blast
    have "train_loop [int k..N] ids st = (None, ids', st')"
      unfolding lst using Some step r by simp
    moreover have "ids' \<noteq> []" using e ne merge_nonempty by simp
    moreover have "int k' \<le> N + 1" using kk le by auto
    ultimately show ?thesis using i kk ne by (intro exI [of _ k'] exI [of _ ids'] exI [of _ st']) auto
  qed
qed

lemma map_of_tabulate:
  "map_of (map (\<lambda>k. (k, f k)) xs) x = (if x \<in> set xs then Some (f x) else None)"
  by (induction xs) auto

lemma initial_inv:
  "train_inv 0 (map uint (bs :: bytes)) (st\<lparr>vocab := initial_vocab, merges := []\<rparr>)"
proof -
  have "0 \<le> uint b \<and> uint b < 256" for b :: byte
    using uint_bounded [of b] by simp
  then show ?thesis
    by (simp add: train_inv_def initial_vocab_def comp_def map_of_tabulate)
qed

lemma utf8_char_values_nonempty: "utf8_char_values c = Some ns \<Longrightarrow> ns \<noteq> []"
  by (auto simp: utf8_char_values_def split: if_splits)

lemma utf8_encode_empty: "utf8_encode T = Some [] \<longleftrightarrow> T = []"
  by (cases T) (auto simp: utf8_encode_char_def split: option.splits dest: utf8_char_values_nonempty)

lemma train_loop_empty: "train_loop js [] st = (None, [], st)"
  by (cases js) (simp_all add: get_stats_def train_pick_def)

lemma train_cases:
  "train st T n =
     (if n < 256 then (Some ValueError, st)
      else if utf8_encode T = None then (Some UnicodeEncodeError, st)
      else if T = [] then (Some ZeroDivisionError, st\<lparr>vocab := initial_vocab, merges := []\<rparr>)
      else (None, snd (train st T n)))"
proof -
  consider (a) "n < 256" | (b) "256 \<le> n" "utf8_encode T = None"
    | (c) bs where "256 \<le> n" "utf8_encode T = Some bs"
    by (cases "utf8_encode T"; cases "n < 256") auto
  then show ?thesis
  proof cases
    case a
    then show ?thesis by (simp add: train_def)
  next
    case b
    then show ?thesis by (simp add: train_def)
  next
    case c
    let ?st0 = "st\<lparr>vocab := initial_vocab, merges := []\<rparr>"
    show ?thesis
    proof (cases "T = []")
      case True
      then have "bs = []" using c by simp
      then show ?thesis using c True by (simp add: train_def train_loop_empty)
    next
      case False
      then have ne: "map uint bs \<noteq> []" using c utf8_encode_empty by auto
      obtain k' ids' st' where r: "train_loop [int 0..n - 256 - 1] (map uint bs) ?st0 = (None, ids', st')"
        and e: "ids' = [] \<longleftrightarrow> map uint bs = []"
        using train_loop_inv [OF initial_inv, of "n - 256 - 1" bs st] by blast
      then show ?thesis using c False ne by (simp add: train_def)
    qed
  qed
qed

lemma train_success_inv:
  assumes "train st T n = (None, st')"
  shows "\<exists>k ids. train_inv k ids st' \<and> int k \<le> n - 256"
proof -
  from assms train_cases [of st T n] have n: "256 \<le> n" and T: "T \<noteq> []"
    and enc: "utf8_encode T \<noteq> None"
    by (auto split: if_splits)
  then obtain bs where bs: "utf8_encode T = Some bs" by auto
  let ?st0 = "st\<lparr>vocab := initial_vocab, merges := []\<rparr>"
  obtain k' ids' st'' where r: "train_loop [int 0..n - 256 - 1] (map uint bs) ?st0 = (None, ids', st'')"
    and i: "train_inv k' ids' st''" and kk: "k' = 0 \<or> int k' \<le> n - 256 - 1 + 1"
    and e: "ids' = [] \<longleftrightarrow> map uint bs = []"
    using train_loop_inv [OF initial_inv, of "n - 256 - 1" bs st] by blast
  have "map uint bs \<noteq> []" using T bs utf8_encode_empty by auto
  then have "train st T n = (None, st'')" using n bs r e by (simp add: train_def)
  then have "st' = st''" using assms by simp
  moreover have "int k' \<le> n - 256" using kk n by auto
  ultimately show ?thesis using i by blast
qed

subsection \<open>Encoding with a trained tokenizer\<close>

text \<open>
  Every entry of the merge table has a pair as its key, and the vocabulary expands the
  merged ID to the expansions of the two members of the pair.
\<close>

definition expansions_ok :: "(int, bytes) dict \<Rightarrow> (int list, int) dict \<Rightarrow> bool" where
  "expansions_ok v m \<longleftrightarrow>
     (\<forall>kv\<in>set m. \<exists>a b l r. fst kv = [a, b] \<and> map_of v a = Some l
            \<and> map_of v b = Some r \<and> map_of v (snd kv) = Some (l @ r))"

lemma train_inv_expansions: "train_inv k ids st \<Longrightarrow> expansions_ok (vocab st) (merges st)"
  unfolding train_inv_def expansions_ok_def by blast

lemma encode_pick_Some:
  "2 \<le> length tokens \<Longrightarrow> \<exists>p. encode_pick m tokens = Some p"
  using encode_pick_props by blast

lemma encode_loop_join:
  "expansions_ok v m \<Longrightarrow> join_vocab v tokens = Inr bs \<Longrightarrow>
   \<exists>out. encode_loop m tokens = Inr out \<and> join_vocab v out = Inr bs"
proof (induction m tokens rule: encode_loop.induct)
  case (1 m tokens)
  note ok = "1.prems"(1) and join = "1.prems"(2)
  show ?case
  proof (cases "2 \<le> length tokens")
    case False
    then show ?thesis using join by (subst encode_loop.simps) simp
  next
    case True
    then obtain pair where pick: "encode_pick m tokens = Some pair"
      using encode_pick_Some by blast
    show ?thesis
    proof (cases "map_of m (tuple_of pair)")
      case None
      then show ?thesis using True pick join by (subst encode_loop.simps) simp
    next
      case (Some idx)
      then have mem: "(tuple_of pair, idx) \<in> set m" by (rule map_of_SomeD)
      have "\<exists>a b l r. fst (tuple_of pair, idx) = [a, b] \<and> map_of v a = Some l
            \<and> map_of v b = Some r \<and> map_of v (snd (tuple_of pair, idx)) = Some (l @ r)"
        using ok mem unfolding expansions_ok_def by blast
      then obtain a b l r where "tuple_of pair = [a, b]" "map_of v a = Some l"
        "map_of v b = Some r" "map_of v idx = Some (l @ r)"
        by auto
      then have "map_of v (fst pair) = Some l" "map_of v (snd pair) = Some r"
        "map_of v idx = Some (l @ r)"
        by (simp_all add: tuple_of_def)
      then have "join_vocab v (merge tokens pair idx) = Inr bs"
        using join by (simp add: merge_eq_spec join_vocab_merge_spec)
      then obtain out where "encode_loop m (merge tokens pair idx) = Inr out"
        "join_vocab v out = Inr bs"
        using "1.IH" [OF True pick Some ok] by blast
      then show ?thesis using True pick Some by (subst encode_loop.simps) simp
    qed
  qed
qed

lemma join_vocab_bytes:
  "\<forall>b. 0 \<le> b \<and> b < 256 \<longrightarrow> map_of v b = Some [word_of_int b] \<Longrightarrow>
   join_vocab v (map uint (bs :: bytes)) = Inr bs"
proof (induction bs)
  case Nil
  then show ?case by simp
next
  case (Cons b bs)
  have "0 \<le> uint b \<and> uint b < 256" using uint_bounded [of b] by simp
  then have "map_of v (uint b) = Some [b]" using Cons.prems by fastforce
  then show ?case using Cons by simp
qed

lemma join_vocab_known:
  "join_vocab v ids = Inr bs \<Longrightarrow> t \<in> set ids \<Longrightarrow> map_of v t \<noteq> None"
  by (induction ids arbitrary: bs) (auto split: option.splits sum.splits)

lemma trained_encode:
  assumes tr: "train st T' n = (None, st')" and enc: "utf8_encode T = Some bs"
    and ne: "merges st' \<noteq> []"
  shows "\<exists>ids. encode st' T = Inr ids \<and> join_vocab (vocab st') ids = Inr bs"
proof -
  obtain k ids0 where inv: "train_inv k ids0 st'" using train_success_inv [OF tr] by blast
  then have vb: "\<forall>b. 0 \<le> b \<and> b < 256 \<longrightarrow> map_of (vocab st') b = Some [word_of_int b]"
    unfolding train_inv_def by blast
  have "join_vocab (vocab st') (map uint bs) = Inr bs" using vb by (rule join_vocab_bytes)
  then obtain out where "encode_loop (merges st') (map uint bs) = Inr out"
    "join_vocab (vocab st') out = Inr bs"
    using encode_loop_join [OF train_inv_expansions [OF inv]] by blast
  then show ?thesis using enc ne by (simp add: encode_def)
qed

lemma trained_vocab_nonempty:
  assumes "train st T' n = (None, st')" shows "vocab st' \<noteq> []"
proof -
  obtain k ids0 where "train_inv k ids0 st'" using train_success_inv [OF assms] by blast
  then have "map fst (vocab st') = [0..255 + int k]" unfolding train_inv_def by blast
  then show ?thesis by auto
qed

lemma encode_success:
  "encode st T = Inr ids \<Longrightarrow> merges st \<noteq> [] \<and> (\<exists>bs. utf8_encode T = Some bs)"
  by (auto simp: encode_def split: if_splits option.splits)

lemma train_outcome:
  "fst (train st T n) =
     (if n < 256 then Some ValueError
      else if utf8_encode T = None then Some UnicodeEncodeError
      else if T = [] then Some ZeroDivisionError
      else None)"
  by (subst train_cases) simp

subsection \<open>A worked example: training on "ababab" with 257 entries\<close>

lemma initial_vocab_lookup:
  "map_of initial_vocab b = (if 0 \<le> b \<and> b \<le> 255 then Some [word_of_int b] else None)"
  by (simp add: initial_vocab_def map_of_tabulate)

lemma initial_vocab_keys: "fst ` set initial_vocab = {0..255}"
  by (simp add: initial_vocab_def image_image)

lemma utf8_ab: "utf8_encode [97, 98, 97, 98, 97, 98] = Some [97, 98, 97, 98, 97, 98]"
  by (simp add: utf8_encode_char_def utf8_char_values_def)

lemma stats_ab: "get_stats [97, 98, 97, 98, 97, 98] = [((97, 98), 3), ((98, 97), 2)]"
  by (simp add: get_stats_def dict_get_default_def)

lemma trained_example:
  "train \<lparr>vocab = [], merges = []\<rparr> [97, 98, 97, 98, 97, 98] 257
   = (None, \<lparr>vocab = initial_vocab @ [(256, [97, 98])], merges = [([97, 98], 256)]\<rparr>)"
  unfolding train_def utf8_ab
  by (simp add: stats_ab train_pick_def train_step_def Let_def
      merge_eq_spec tuple_of_def initial_vocab_lookup dict_set_append initial_vocab_keys)

lemma encode_example:
  "encode \<lparr>vocab = initial_vocab @ [(256, [97, 98])], merges = [([97, 98], 256)]\<rparr> [97, 98, 99]
   = Inr [256, 99]"
  by (simp add: encode_def utf8_encode_char_def utf8_char_values_def encode_loop.simps
      encode_pick_def get_stats_def dict_get_default_def tuple_of_def merge_eq_spec)

lemma decode_example:
  "decode \<lparr>vocab = initial_vocab @ [(256, [97, 98])], merges = [([97, 98], 256)]\<rparr> [256, 99]
   = Inr [97, 98, 99]"
  by (simp add: decode_def map_of_append map_add_def initial_vocab_lookup utf8_decode_replace_def
      utf8_decode_head.simps)


lemma train_empty_text:
  "train st [] 256 = (Some ZeroDivisionError, st\<lparr>vocab := initial_vocab, merges := []\<rparr>)"
  by (simp add: train_def)

section \<open>The claims\<close>

text \<open>
  Claim C4. For every token sequence, pair and replacement ID, \<open>merge\<close> (the loop of the
  source, which walks the sequence by index and appends to a fresh list) returns what the
  specification describes: the left-to-right scan that replaces the pair by the new ID
  wherever it stands at the front, resumes two positions further after a replacement,
  so that an occurrence starting inside a replaced pair is skipped, and copies a token
  otherwise. The source list is only read; the function returns a new list.
\<close>

theorem merge_refines_spec: "merge ids pair idx = merge_spec ids pair idx"
  by (simp add: merge_def merge_loop_spec)

text \<open>
  Claim C3. In a training iteration on a sequence with at least one adjacent pair, the
  pair that \<open>max(stats, key=stats.get)\<close> selects occurs in the sequence, no pair is more
  frequent, and every other pair of the same frequency has its first occurrence further
  right. The loop \<open>train_loop\<close> continues with exactly this pair.
\<close>

theorem train_selects_most_frequent_leftmost:
  assumes "2 \<le> length ids"
  shows "\<exists>p. train_pick (get_stats ids) = Some p
           \<and> p \<in> set (adjacent ids)
           \<and> (\<forall>q. frequency ids q \<le> frequency ids p)
           \<and> (\<forall>q. q \<noteq> p \<and> frequency ids q = frequency ids p
                 \<longrightarrow> first_pos (adjacent ids) p < first_pos (adjacent ids) q)
           \<and> train_loop (i # rest) ids st =
               (case train_step i p ids st of
                  (Some e, ids', st') \<Rightarrow> (Some e, ids', st')
                | (None, ids', st') \<Rightarrow> train_loop rest ids' st')"
proof -
  obtain p where p: "train_pick (get_stats ids) = Some p"
    and rest: "p \<in> set (adjacent ids)" "\<forall>q. frequency ids q \<le> frequency ids p"
      "\<forall>q. q \<noteq> p \<and> frequency ids q = frequency ids p
                 \<longrightarrow> first_pos (adjacent ids) p < first_pos (adjacent ids) q"
    using train_pick_props [OF assms] by blast
  have "train_loop (i # rest) ids st =
               (case train_step i p ids st of
                  (Some e, ids', st') \<Rightarrow> (Some e, ids', st')
                | (None, ids', st') \<Rightarrow> train_loop rest ids' st')"
    using p by simp
  with p rest show ?thesis by blast
qed

theorem train_selects_most_frequent_leftmost_witness:
  "2 \<le> length [1, 2, 3, 4, 3, 4, 1, 2 :: int]
   \<and> (\<exists>p. train_pick (get_stats [1, 2, 3, 4, 3, 4, 1, 2]) = Some p
           \<and> p \<in> set (adjacent [1, 2, 3, 4, 3, 4, 1, 2])
           \<and> (\<forall>q. frequency [1, 2, 3, 4, 3, 4, 1, 2] q \<le> frequency [1, 2, 3, 4, 3, 4, 1, 2] p)
           \<and> (\<forall>q. q \<noteq> p \<and> frequency [1, 2, 3, 4, 3, 4, 1, 2] q = frequency [1, 2, 3, 4, 3, 4, 1, 2] p
                 \<longrightarrow> first_pos (adjacent [1, 2, 3, 4, 3, 4, 1, 2]) p
                       < first_pos (adjacent [1, 2, 3, 4, 3, 4, 1, 2]) q))"
proof -
  have h: "2 \<le> length [1, 2, 3, 4, 3, 4, 1, 2 :: int]" by simp
  show ?thesis
    using h train_selects_most_frequent_leftmost [OF h, of 0 "[]" "\<lparr>vocab = [], merges = []\<rparr>"]
    by blast
qed

text \<open>
  Claim C2. In an iteration of the loop of \<open>encode\<close> on a sequence of at least two
  tokens, the pair that \<open>min\<close> selects is an adjacent pair of the sequence. If it is not
  a key of the merge table, then no adjacent pair is, and the loop returns the sequence as
  it stands. Otherwise its merge ID is the smallest among the adjacent pairs that are
  keys of the merge table, whatever the frequencies, and the loop continues with the
  sequence merged on that pair.
\<close>

theorem encode_selects_highest_priority:
  assumes "2 \<le> length tokens"
  shows "\<exists>p. encode_pick m tokens = Some p \<and> p \<in> set (adjacent tokens)
     \<and> (case map_of m (tuple_of p) of
          None \<Rightarrow> (\<forall>q\<in>set (adjacent tokens). map_of m (tuple_of q) = None)
                   \<and> encode_loop m tokens = Inr tokens
        | Some idx \<Rightarrow> (\<forall>q\<in>set (adjacent tokens). \<forall>v. map_of m (tuple_of q) = Some v \<longrightarrow> idx \<le> v)
                     \<and> encode_loop m tokens = encode_loop m (merge tokens p idx))"
proof -
  obtain p where p: "encode_pick m tokens = Some p" and pin: "p \<in> set (adjacent tokens)"
    and best: "\<forall>q\<in>set (adjacent tokens). \<not> prio_lt (map_of m (tuple_of q)) (map_of m (tuple_of p))"
    using encode_pick_props [OF assms] by blast
  show ?thesis
  proof (cases "map_of m (tuple_of p)")
    case None
    have "map_of m (tuple_of q) = None" if "q \<in> set (adjacent tokens)" for q
      using best that None by (cases "map_of m (tuple_of q)") auto
    moreover have "encode_loop m tokens = Inr tokens"
      using assms p None by (subst encode_loop.simps) simp
    ultimately show ?thesis using p pin None by auto
  next
    case (Some idx)
    have "idx \<le> v" if "q \<in> set (adjacent tokens)" "map_of m (tuple_of q) = Some v" for q v
      using best that Some by force
    moreover have "encode_loop m tokens = encode_loop m (merge tokens p idx)"
      using assms p Some by (subst encode_loop.simps) simp
    ultimately show ?thesis using p pin Some by auto
  qed
qed

theorem encode_selects_highest_priority_witness:
  "2 \<le> length [1, 2, 3, 4, 3, 4, 1, 2 :: int]
   \<and> (\<exists>p. encode_pick [([3, 4], 256), ([1, 2], 257)] [1, 2, 3, 4, 3, 4, 1, 2] = Some p
         \<and> p \<in> set (adjacent [1, 2, 3, 4, 3, 4, 1, 2])
         \<and> (case map_of [([3, 4], 256), ([1, 2], 257)] (tuple_of p) of
              None \<Rightarrow> (\<forall>q\<in>set (adjacent [1, 2, 3, 4, 3, 4, 1, 2]).
                          map_of [([3, 4], 256), ([1, 2], 257 :: int)] (tuple_of q) = None)
                       \<and> encode_loop [([3, 4], 256), ([1, 2], 257)] [1, 2, 3, 4, 3, 4, 1, 2]
                           = Inr [1, 2, 3, 4, 3, 4, 1, 2]
            | Some idx \<Rightarrow> (\<forall>q\<in>set (adjacent [1, 2, 3, 4, 3, 4, 1, 2]). \<forall>v.
                             map_of [([3, 4], 256), ([1, 2], 257)] (tuple_of q) = Some v \<longrightarrow> idx \<le> v)
                       \<and> encode_loop [([3, 4], 256), ([1, 2], 257)] [1, 2, 3, 4, 3, 4, 1, 2]
                           = encode_loop [([3, 4], 256), ([1, 2], 257)]
                               (merge [1, 2, 3, 4, 3, 4, 1, 2] p idx)))"
proof -
  have h: "2 \<le> length [1, 2, 3, 4, 3, 4, 1, 2 :: int]" by simp
  show ?thesis
    using h encode_selects_highest_priority [OF h, of "[([3, 4], 256), ([1, 2], 257)]"]
    by blast
qed

text \<open>
  Claim C6. After a successful \<open>train\<close> with \<open>vocab_size = n\<close>, the merge table has
  \<open>k \<le> n - 256\<close> entries; the entry recorded in pass \<open>i\<close> (the \<open>i\<close>-th in insertion
  order) has the ID \<open>256 + i\<close>; the IDs are exactly 256 to 255 + k, each once; and no
  pair was recorded twice.
\<close>

theorem train_merge_ids_sequential:
  assumes "train st T n = (None, st')"
  shows "\<exists>k. int k \<le> n - 256 \<and> length (merges st') = k
           \<and> (\<forall>i<k. snd (merges st' ! i) = 256 + int i)
           \<and> snd ` set (merges st') = {256..255 + int k}
           \<and> distinct (map snd (merges st')) \<and> distinct (map fst (merges st'))"
proof -
  obtain k ids where inv: "train_inv k ids st'" and k: "int k \<le> n - 256"
    using train_success_inv [OF assms] by blast
  then have mv: "map snd (merges st') = [256..255 + int k]"
    and md: "distinct (map fst (merges st'))"
    unfolding train_inv_def by blast+
  have "length (map snd (merges st')) = length [256..255 + int k]" using mv by simp
  then have len: "length (merges st') = k" by simp
  have nth: "snd (merges st' ! i) = 256 + int i" if "i < k" for i
  proof -
    have "snd (merges st' ! i) = map snd (merges st') ! i" using that len by simp
    also have "\<dots> = 256 + int i" unfolding mv using that by simp
    finally show ?thesis .
  qed
  have "snd ` set (merges st') = {256..255 + int k}" using mv by (metis set_map set_upto)
  moreover have "distinct (map snd (merges st'))" unfolding mv by simp
  ultimately show ?thesis using k len nth md by blast
qed

theorem train_merge_ids_sequential_witness:
  "train \<lparr>vocab = [], merges = []\<rparr> [97, 98, 97, 98, 97, 98] 257 = (None, \<lparr>vocab = initial_vocab @ [(256, [97, 98])], merges = [([97, 98], 256)]\<rparr>)
   \<and> (\<exists>k. int k \<le> 257 - 256 \<and> length (merges \<lparr>vocab = initial_vocab @ [(256, [97, 98])], merges = [([97, 98], 256)]\<rparr>) = k
           \<and> (\<forall>i<k. snd (merges \<lparr>vocab = initial_vocab @ [(256, [97, 98])], merges = [([97, 98], 256)]\<rparr> ! i) = 256 + int i)
           \<and> snd ` set (merges \<lparr>vocab = initial_vocab @ [(256, [97, 98])], merges = [([97, 98], 256)]\<rparr>) = {256..255 + int k}
           \<and> distinct (map snd (merges \<lparr>vocab = initial_vocab @ [(256, [97, 98])], merges = [([97, 98], 256)]\<rparr>))
           \<and> distinct (map fst (merges \<lparr>vocab = initial_vocab @ [(256, [97, 98])], merges = [([97, 98], 256)]\<rparr>)))"
  using trained_example train_merge_ids_sequential [OF trained_example] by blast

text \<open>
  Claim C10. After a successful \<open>train\<close>, every ID of a sequence that \<open>encode\<close> returns
  has an entry in the vocabulary, and \<open>decode\<close> of that sequence returns a string: it
  raises neither KeyError nor any other exception.
\<close>

theorem encode_output_in_vocabulary:
  assumes "train st T' n = (None, st')" and "encode st' T = Inr ids"
  shows "(\<forall>t\<in>set ids. map_of (vocab st') t \<noteq> None) \<and> (\<exists>s. decode st' ids = Inr s)"
proof -
  obtain bs where bs: "utf8_encode T = Some bs" and ne: "merges st' \<noteq> []"
    using encode_success [OF assms(2)] by blast
  obtain ids' where "encode st' T = Inr ids'" "join_vocab (vocab st') ids' = Inr bs"
    using trained_encode [OF assms(1) bs ne] by blast
  then have j: "join_vocab (vocab st') ids = Inr bs" using assms(2) by simp
  then have "\<forall>t\<in>set ids. map_of (vocab st') t \<noteq> None" using join_vocab_known by blast
  moreover have "decode st' ids = Inr (utf8_decode_replace bs)"
    using j trained_vocab_nonempty [OF assms(1)] by (simp add: decode_def)
  ultimately show ?thesis by blast
qed

theorem encode_output_in_vocabulary_witness:
  "train \<lparr>vocab = [], merges = []\<rparr> [97, 98, 97, 98, 97, 98] 257 = (None, \<lparr>vocab = initial_vocab @ [(256, [97, 98])], merges = [([97, 98], 256)]\<rparr>)
   \<and> encode \<lparr>vocab = initial_vocab @ [(256, [97, 98])], merges = [([97, 98], 256)]\<rparr> [97, 98, 99] = Inr [256, 99]
   \<and> map_of (vocab \<lparr>vocab = initial_vocab @ [(256, [97, 98])], merges = [([97, 98], 256)]\<rparr>) 256 \<noteq> None
   \<and> map_of (vocab \<lparr>vocab = initial_vocab @ [(256, [97, 98])], merges = [([97, 98], 256)]\<rparr>) 99 \<noteq> None
   \<and> (\<exists>s. decode \<lparr>vocab = initial_vocab @ [(256, [97, 98])], merges = [([97, 98], 256)]\<rparr> [256, 99] = Inr s)"
proof -
  have "(\<forall>t\<in>set [256, 99]. map_of (vocab \<lparr>vocab = initial_vocab @ [(256, [97, 98])], merges = [([97, 98], 256)]\<rparr>) t \<noteq> None)
      \<and> (\<exists>s. decode \<lparr>vocab = initial_vocab @ [(256, [97, 98])], merges = [([97, 98], 256)]\<rparr> [256, 99] = Inr s)"
    by (rule encode_output_in_vocabulary [OF trained_example encode_example])
  then have "map_of (vocab \<lparr>vocab = initial_vocab @ [(256, [97, 98])], merges = [([97, 98], 256)]\<rparr>) 256 \<noteq> None"
    "map_of (vocab \<lparr>vocab = initial_vocab @ [(256, [97, 98])], merges = [([97, 98], 256)]\<rparr>) 99 \<noteq> None"
    "\<exists>s. decode \<lparr>vocab = initial_vocab @ [(256, [97, 98])], merges = [([97, 98], 256)]\<rparr> [256, 99] = Inr s"
    by (simp_all del: tokenizer.simps)
  then show ?thesis using trained_example encode_example by blast
qed

text \<open>
  Claim C1, as stated, fails: \<open>train\<close> with \<open>vocab_size = 256\<close> succeeds on "ab" and
  learns no merge, and \<open>encode\<close> then raises RuntimeError on the valid text "ab", because
  it takes an empty merge table for an untrained tokenizer.
\<close>

theorem roundtrip_fails_without_merges:
  "train \<lparr>vocab = [], merges = []\<rparr> [97, 98] 256 = (None, \<lparr>vocab = initial_vocab, merges = []\<rparr>)
   \<and> utf8_encode [97, 98] = Some [97, 98]
   \<and> encode \<lparr>vocab = initial_vocab, merges = []\<rparr> [97, 98] = Inl RuntimeError"
  by (simp add: train_def encode_def utf8_encode_char_def utf8_char_values_def)

text \<open>
  Claim C1, amended. After a successful \<open>train\<close> that learned at least one merge, for
  every text \<open>T\<close> that has a UTF-8 encoding, \<open>encode\<close> returns a sequence and \<open>decode\<close> of
  that sequence returns \<open>T\<close>.
\<close>

theorem roundtrip_after_training:
  assumes "train st T' n = (None, st')" and "merges st' \<noteq> []" and "utf8_encode T = Some bs"
  shows "\<exists>ids. encode st' T = Inr ids \<and> decode st' ids = Inr T"
proof -
  obtain ids where e: "encode st' T = Inr ids" and j: "join_vocab (vocab st') ids = Inr bs"
    using trained_encode [OF assms(1) assms(3) assms(2)] by blast
  have "decode st' ids = Inr (utf8_decode_replace bs)"
    using j trained_vocab_nonempty [OF assms(1)] by (simp add: decode_def)
  then show ?thesis using e utf8_roundtrip [OF assms(3)] by simp
qed

theorem roundtrip_after_training_witness:
  "train \<lparr>vocab = [], merges = []\<rparr> [97, 98, 97, 98, 97, 98] 257 = (None, \<lparr>vocab = initial_vocab @ [(256, [97, 98])], merges = [([97, 98], 256)]\<rparr>)
   \<and> merges \<lparr>vocab = initial_vocab @ [(256, [97, 98])], merges = [([97, 98], 256)]\<rparr> \<noteq> []
   \<and> utf8_encode [97, 98, 99] = Some [97, 98, 99]
   \<and> (\<exists>ids. encode \<lparr>vocab = initial_vocab @ [(256, [97, 98])], merges = [([97, 98], 256)]\<rparr> [97, 98, 99] = Inr ids
          \<and> decode \<lparr>vocab = initial_vocab @ [(256, [97, 98])], merges = [([97, 98], 256)]\<rparr> ids = Inr [97, 98, 99])"
proof -
  have m: "merges \<lparr>vocab = initial_vocab @ [(256, [97, 98])], merges = [([97, 98], 256)]\<rparr> \<noteq> []" by simp
  have e: "utf8_encode [97, 98, 99] = Some [97, 98, 99]"
    by (simp add: utf8_encode_char_def utf8_char_values_def)
  show ?thesis
    using trained_example m e roundtrip_after_training [OF trained_example m e] by blast
qed

text \<open>
  Claim C9, as stated, fails: \<open>train\<close> does not succeed on every text. On a string with
  a lone surrogate the strict UTF-8 encoding raises UnicodeEncodeError.
\<close>

theorem train_256_fails_on_surrogate:
  "train \<lparr>vocab = [], merges = []\<rparr> [0xD800] 256 = (Some UnicodeEncodeError, \<lparr>vocab = [], merges = []\<rparr>)"
  by (simp add: train_def utf8_encode_char_def utf8_char_values_def)

text \<open>
  Claim C9, amended. For every non-empty text that has a UTF-8 encoding, \<open>train\<close> with
  \<open>vocab_size = 256\<close> succeeds, leaves the vocabulary of the 256 bytes and an empty merge
  table, and \<open>encode\<close> on the resulting tokenizer raises RuntimeError for every text.
\<close>

theorem train_256_then_encode_untrained:
  assumes "T \<noteq> []" and "utf8_encode T = Some bs"
  shows "train st T 256 = (None, st\<lparr>vocab := initial_vocab, merges := []\<rparr>)
         \<and> encode (st\<lparr>vocab := initial_vocab, merges := []\<rparr>) T2 = Inl RuntimeError"
proof -
  have "map uint bs \<noteq> []" using assms utf8_encode_empty by auto
  then have "train st T 256 = (None, st\<lparr>vocab := initial_vocab, merges := []\<rparr>)"
    using assms(2) by (simp add: train_def)
  moreover have "encode (st\<lparr>vocab := initial_vocab, merges := []\<rparr>) T2 = Inl RuntimeError"
    by (simp add: encode_def)
  ultimately show ?thesis by simp
qed

theorem train_256_then_encode_untrained_witness:
  "[97, 98] \<noteq> ([] :: str) \<and> utf8_encode [97, 98] = Some [97, 98]
   \<and> train \<lparr>vocab = [], merges = []\<rparr> [97, 98] 256
       = (None, \<lparr>vocab = [], merges = []\<rparr>\<lparr>vocab := initial_vocab, merges := []\<rparr>)
   \<and> encode (\<lparr>vocab = [], merges = []\<rparr>\<lparr>vocab := initial_vocab, merges := []\<rparr>) [97, 98]
       = Inl RuntimeError"
proof -
  have n: "[97, 98] \<noteq> ([] :: str)" by simp
  have e: "utf8_encode [97, 98] = Some [97, 98]"
    by (simp add: utf8_encode_char_def utf8_char_values_def)
  show ?thesis
    using n e train_256_then_encode_untrained [OF n e, of "\<lparr>vocab = [], merges = []\<rparr>" "[97, 98]"] by blast
qed

end
